theory Spec2Isabelle
  imports Complex_Main "HOL-Library.Sublist"
begin

section \<open>Job splitting\<close>

text \<open>
  The source (\<^verbatim>\<open>blendersynth/run/blender_threading.py\<close>):
  \<^verbatim>\<open>
  def list_split(list, chunks):
      return [[*x] for x in np.array_split(list, chunks)]
  \<close>
  \<^verbatim>\<open>np.array_split\<close> is numpy's; for a scalar section count it computes
  \<^verbatim>\<open>
  Nsections = int(indices_or_sections)
  if Nsections <= 0: raise ValueError('number sections must be larger than 0.')
  Neach_section, extras = divmod(Ntotal, Nsections)
  section_sizes = [0] + extras * [Neach_section+1] + (Nsections-extras) * [Neach_section]
  div_points = array(section_sizes).cumsum()
  for i in range(Nsections):
      st = div_points[i]; end = div_points[i + 1]
      sub_arys.append(sary[st:end])
  \<close>
  Job descriptors are scalars to numpy (paths of json files), so the array is
  one-dimensional and each section is a contiguous slice of the list.
\<close>

datatype error = ValueError | ZeroDivisionError | IndexError | AttributeError
  | TypeError | FileNotFoundError | UnsupportedOperation

fun cumsum_from :: "nat \<Rightarrow> nat list \<Rightarrow> nat list" where
  "cumsum_from a [] = []"
| "cumsum_from a (x # xs) = (a + x) # cumsum_from (a + x) xs"

definition cumsum :: "nat list \<Rightarrow> nat list" where
  "cumsum xs = cumsum_from 0 xs"

definition slice :: "'a list \<Rightarrow> nat \<Rightarrow> nat \<Rightarrow> 'a list" where
  \<comment> \<open>\<^verbatim>\<open>xs[st:end]\<close> for \<open>0 \<le> st\<close>, \<open>0 \<le> end\<close>; out-of-range bounds are clamped.\<close>
  "slice xs st en = take (en - st) (drop st xs)"

definition section_sizes :: "nat \<Rightarrow> nat \<Rightarrow> nat list" where
  "section_sizes Ntotal Nsections =
     (let Neach_section = Ntotal div Nsections; extras = Ntotal mod Nsections
      in 0 # replicate extras (Neach_section + 1) @ replicate (Nsections - extras) Neach_section)"

definition array_split :: "'a list \<Rightarrow> int \<Rightarrow> error + 'a list list" where
  "array_split ary Nsections =
     (if Nsections \<le> 0 then Inl ValueError
      else let div_points = cumsum (section_sizes (length ary) (nat Nsections))
           in Inr (map (\<lambda>i. slice ary (div_points ! i) (div_points ! (i + 1)))
                       [0..<nat Nsections]))"

definition list_split :: "'a list \<Rightarrow> int \<Rightarrow> error + 'a list list" where
  "list_split xs chunks = array_split xs chunks"

text \<open>
  \<^verbatim>\<open>np.ceil(len(jobs)/MAX_PER_JOB)\<close>: true division of two Python ints raises
  ZeroDivisionError for a zero divisor; otherwise it returns the double nearest to the
  exact quotient (ties to even), which is then rounded up (and \<^verbatim>\<open>array_split\<close>
  converts the float back with \<^verbatim>\<open>int\<close>). The nearest double is \<open>0.0\<close> (or
  \<open>-0.0\<close>) exactly when the quotient's magnitude is at most \<open>2^-1075\<close>, half the
  smallest positive double: the quotient underflows and no section is requested.
  Otherwise, for list lengths below \<open>2^53\<close> and a positive divisor, the double rounds
  up to the exact ceiling of the quotient, which is what is computed here on integers;
  for a negative divisor the result is not positive either way.
\<close>

definition underflows :: "nat \<Rightarrow> int \<Rightarrow> bool" where
  "underflows n m = (int n * 2 ^ 1075 \<le> \<bar>m\<bar>)"

definition ceil_div :: "nat \<Rightarrow> int \<Rightarrow> error + int" where
  "ceil_div n m =
     (if m = 0 then Inl ZeroDivisionError
      else if underflows n m then Inr 0
      else Inr (- ((- int n) div m)))"

definition chunk_jobs :: "'a list \<Rightarrow> int \<Rightarrow> error + 'a list list" where
  \<comment> \<open>\<^verbatim>\<open>list_split(jobs, np.ceil(len(jobs)/MAX_PER_JOB))\<close> of \<^verbatim>\<open>BlenderThread.__init__\<close>\<close>
  "chunk_jobs jobs MAX_PER_JOB =
     (case ceil_div (length jobs) MAX_PER_JOB of
        Inl e \<Rightarrow> Inl e
      | Inr chunks \<Rightarrow> list_split jobs chunks)"


text \<open>
  Two auxiliary notions for stating what \<open>array_split\<close> computes: the sizes of the
  sections without the leading \<open>0\<close>, and cutting a list into consecutive pieces of
  given sizes.
\<close>

definition sizes :: "nat \<Rightarrow> nat \<Rightarrow> nat list" where
  "sizes n k = replicate (n mod k) (n div k + 1) @ replicate (k - n mod k) (n div k)"

fun chop :: "nat list \<Rightarrow> 'a list \<Rightarrow> 'a list list" where
  "chop [] xs = []"
| "chop (s # ss) xs = take s xs # chop ss (drop s xs)"

section \<open>The world outside the coordinator\<close>

text \<open>
  Everything the coordinator observes but does not own: the operating system's processes,
  the file system, the console and the clocks. A process handle (\<^verbatim>\<open>Popen\<close> object)
  is the index of the process in \<open>procs\<close>. \<open>powner\<close> is a ghost field: the name of
  the \<^verbatim>\<open>BlenderThread\<close> whose \<^verbatim>\<open>start_job\<close> spawned the process.
\<close>

record ('c, 'a) proc =
  pcommand :: 'c
  pjobs :: "'a list"
  pstdout :: "string option"
  powner :: string
  pexited :: bool

record ('c, 'a) world =
  procs :: "('c, 'a) proc list"
  files :: "string \<rightharpoonup> string"
  console :: "string list"
  now :: real
  wallclock :: real

definition poll_running :: "('c, 'a) world \<Rightarrow> nat \<Rightarrow> bool" where
  \<comment> \<open>\<^verbatim>\<open>process.poll() is None\<close>\<close>
  "poll_running w h = (h < length (procs w) \<and> \<not> pexited (procs w ! h))"

text \<open>
  Python's floats are doubles. \<open>fl x\<close> is the double nearest to the real number
  \<open>x\<close>, ties to even: 53 significant bits, and below \<open>2^-1022\<close> the fixed spacing
  \<open>2^-1074\<close> of the subnormal numbers (the clock and the timeouts are far from the
  overflow threshold, which is left out). \<^verbatim>\<open>round\<close> rounds half to even as well.
  \<open>now\<close> is the time on the performance counter; \<^verbatim>\<open>perf_counter()\<close> returns it
  as a double, and a difference of two readings is rounded again.
\<close>

definition py_round :: "real \<Rightarrow> int" where
  "py_round x =
     (let f = \<lfloor>x\<rfloor>; d = x - of_int f
      in if d < 1 / 2 then f else if 1 / 2 < d then f + 1 else if even f then f else f + 1)"

definition fl :: "real \<Rightarrow> real" where
  "fl x =
     (if x = 0 then 0
      else let e = max (\<lfloor>log 2 \<bar>x\<bar>\<rfloor> - 52) (- 1074)
           in of_int (py_round (x / 2 powr of_int e)) * 2 powr of_int e)"

definition perf_counter :: "('c, 'a) world \<Rightarrow> real" where
  "perf_counter w = fl (now w)"

text \<open>What the rest of the world may do between two steps of the coordinator.\<close>

datatype env_event = Exit nat | Emit string string | Advance real

fun apply_env :: "env_event \<Rightarrow> ('c, 'a) world \<Rightarrow> ('c, 'a) world" where
  "apply_env (Exit h) w =
     (if h < length (procs w) then w\<lparr>procs := (procs w)[h := (procs w ! h)\<lparr>pexited := True\<rparr>]\<rparr>
      else w)"
| "apply_env (Emit path s) w =
     w\<lparr>files := (files w)(path \<mapsto> (case files w path of None \<Rightarrow> s | Some c \<Rightarrow> c @ s))\<rparr>"
| "apply_env (Advance d) w =
     (if 0 \<le> d then w\<lparr>now := now w + d, wallclock := wallclock w + d\<rparr> else w)"

text \<open>
  \<^verbatim>\<open>open(path, "r").readlines()\<close>: the file is read in text mode with universal
  newlines, so \<open>CR LF\<close> and a lone \<open>CR\<close> both end a line and arrive as \<open>LF\<close>;
  every line keeps its line end. The content of a file is its decoded text (bytes that
  are not valid in the encoding raise \<^verbatim>\<open>UnicodeDecodeError\<close>, which is left out).
\<close>

fun universal_newlines :: "string \<Rightarrow> string" where
  "universal_newlines [] = []"
| "universal_newlines [c] = [if c = CHR 0x0D then CHR 0x0A else c]"
| "universal_newlines (c # d # cs) =
     (if c = CHR 0x0D \<and> d = CHR 0x0A then CHR 0x0A # universal_newlines cs
      else if c = CHR 0x0D then CHR 0x0A # universal_newlines (d # cs)
      else c # universal_newlines (d # cs))"

fun split_lines :: "string \<Rightarrow> string list" where
  "split_lines [] = []"
| "split_lines (c # cs) =
     (if c = CHR 0x0A then [c] # split_lines cs
      else (case split_lines cs of [] \<Rightarrow> [[c]] | l # ls \<Rightarrow> (c # l) # ls))"

definition readlines :: "string \<Rightarrow> string list" where
  "readlines content = split_lines (universal_newlines content)"

definition getitem :: "'a list \<Rightarrow> int \<Rightarrow> error + 'a" where
  \<comment> \<open>\<^verbatim>\<open>xs[i]\<close>\<close>
  "getitem xs i =
     (if 0 \<le> i \<and> i < int (length xs) then Inr (xs ! nat i)
      else if i < 0 \<and> - int (length xs) \<le> i then Inr (xs ! nat (int (length xs) + i))
      else Inl IndexError)"

section \<open>BlenderThread: one lane\<close>

text \<open>
  Each method reads the world once, as it is when the method is called: the exit status
  of the process, the log file and the clock. \<^verbatim>\<open>Popen\<close> and the file operations are taken to succeed,
  and the invocation built by \<^verbatim>\<open>command.set_job(job_list)\<close> (of the module
  \<^verbatim>\<open>blender_interface\<close>, not among the sources) is recorded as the pair of the
  command and the job list. The field \<^verbatim>\<open>size\<close> is \<open>size_jobs\<close> here, and the
  open log file is identified with its path \<open>log_loc\<close>.
\<close>

datatype status = Started string | Completed string | RunningJob string int nat
  \<comment> \<open>\<^verbatim>\<open>f'STARTED THREAD {name}'\<close>, \<^verbatim>\<open>f'... THREAD {name} COMPLETED.'\<close>,
      \<^verbatim>\<open>f"THREAD {name} RUNNING JOB {job+1}/{njobs}..."\<close>\<close>

record ('c, 'a) BlenderThread =
  command :: 'c
  jobs :: "'a list list"
  njobs :: nat
  size_jobs :: nat
  timeout :: real
  prev_n :: nat
  timer :: real
  to_stdout :: bool
  log_loc :: "string option"
  process :: "nat option"
  job :: int
  finished :: bool
  name :: string
  status :: status

definition BlenderThread_init ::
  "'c \<Rightarrow> 'a list \<Rightarrow> string option \<Rightarrow> string \<Rightarrow> real \<Rightarrow> bool \<Rightarrow> int \<Rightarrow> ('c, 'a) world
     \<Rightarrow> error + ('c, 'a) BlenderThread \<times> ('c, 'a) world" where
  "BlenderThread_init cmd js loc nm tmo to_out MAX_PER_JOB w =
     (case chunk_jobs js MAX_PER_JOB of
        Inl e \<Rightarrow> Inl e
      | Inr chunks \<Rightarrow>
          let t = \<lparr>command = cmd, jobs = chunks, njobs = length chunks, size_jobs = length js,
                   timeout = tmo, prev_n = 0, timer = perf_counter w, to_stdout = to_out,
                   log_loc = None, process = None, job = - 1, finished = False, name = nm,
                   status = Started nm\<rparr>
          in (case loc of
                Some path \<Rightarrow>
                  if \<not> to_out
                  then Inr (t\<lparr>log_loc := Some path\<rparr>,
                            w\<lparr>files := (files w)(path \<mapsto>
                                 (case files w path of None \<Rightarrow> [] | Some c \<Rightarrow> c))\<rparr>)
                  else Inr (t, w)
              | None \<Rightarrow> Inr (t, w)))"

definition is_running :: "('c, 'a) BlenderThread \<Rightarrow> ('c, 'a) world \<Rightarrow> bool" where
  "is_running t w = (case process t of None \<Rightarrow> False | Some h \<Rightarrow> poll_running w h)"

definition start_job ::
  "('c, 'a) BlenderThread \<Rightarrow> int \<Rightarrow> ('c, 'a) world
     \<Rightarrow> error + ('c, 'a) BlenderThread \<times> ('c, 'a) world" where
  "start_job t j w =
     (case getitem (jobs t) j of
        Inl e \<Rightarrow> Inl e
      | Inr job_list \<Rightarrow>
          Inr (t\<lparr>process := Some (length (procs w))\<rparr>,
               w\<lparr>procs := procs w @
                    [\<lparr>pcommand = command t, pjobs = job_list,
                      pstdout = (if to_stdout t then None else log_loc t),
                      powner = name t, pexited = False\<rparr>]\<rparr>))"

definition check_in ::
  "('c, 'a) BlenderThread \<Rightarrow> ('c, 'a) world
     \<Rightarrow> error + ('c, 'a) BlenderThread \<times> ('c, 'a) world" where
  "check_in t w =
     (if is_running t w then Inr (t, w)
      else let t1 = t\<lparr>job := job t + 1\<rparr>
           in if job t1 \<ge> int (njobs t1)
              then Inr (t1\<lparr>finished := True, status := Completed (name t1)\<rparr>, w)
              else start_job (t1\<lparr>status := RunningJob (name t1) (job t1 + 1) (njobs t1)\<rparr>)
                     (job t1) w)"

definition terminate ::
  "('c, 'a) BlenderThread \<Rightarrow> ('c, 'a) world \<Rightarrow> error + ('c, 'a) world" where
  "terminate t w =
     (case process t of
        None \<Rightarrow> Inl AttributeError
      | Some h \<Rightarrow> Inr (apply_env (Exit h) w))"

definition num_rendered ::
  "string \<Rightarrow> ('c, 'a) BlenderThread \<Rightarrow> ('c, 'a) world \<Rightarrow> error + nat" where
  \<comment> \<open>\<open>LOG_PREPEND\<close> is imported from \<^verbatim>\<open>blender_interface\<close>, a module not among
      the sources: it is a parameter. Iterating \<^verbatim>\<open>sys.stdout\<close>, a stream opened for
      writing, raises \<^verbatim>\<open>io.UnsupportedOperation\<close>.\<close>
  "num_rendered LOG_PREPEND t w =
     (if process t = None then Inr 0
      else if to_stdout t then Inl UnsupportedOperation
      else (case log_loc t of
              None \<Rightarrow> Inl TypeError
            | Some path \<Rightarrow>
                (case files w path of
                   None \<Rightarrow> Inl FileNotFoundError
                 | Some content \<Rightarrow>
                     Inr (length (filter (prefix LOG_PREPEND) (readlines content))))))"

definition success :: "string \<Rightarrow> ('c, 'a) BlenderThread \<Rightarrow> ('c, 'a) world \<Rightarrow> error + bool" where
  "success LOG_PREPEND t w =
     (case num_rendered LOG_PREPEND t w of
        Inl e \<Rightarrow> Inl e
      | Inr n \<Rightarrow> Inr (n = size_jobs t))"

definition check_status ::
  "string \<Rightarrow> ('c, 'a) BlenderThread \<Rightarrow> ('c, 'a) world
     \<Rightarrow> error + ('c, 'a) BlenderThread \<times> bool" where
  "check_status LOG_PREPEND t w =
     (case num_rendered LOG_PREPEND t w of
        Inl e \<Rightarrow> Inl e
      | Inr n \<Rightarrow>
          if n > prev_n t then Inr (t\<lparr>prev_n := n, timer := perf_counter w\<rparr>, True)
          else if fl (perf_counter w - timer t) \<ge> timeout t then Inr (t, False)
          else Inr (t, True))"


text \<open>
  The public methods of a lane, called in any order and interleaved with what the world
  does, starting from a constructed lane. A sequence of \<open>check_status\<close> calls, each
  at its own state of the world, collects the values returned.
\<close>

datatype lane_event = CheckIn | CheckStatus | Terminate | Env env_event

fun lane_step ::
  "string \<Rightarrow> lane_event \<Rightarrow> ('c, 'a) BlenderThread \<times> ('c, 'a) world
     \<Rightarrow> error + ('c, 'a) BlenderThread \<times> ('c, 'a) world" where
  "lane_step LOG_PREPEND CheckIn (t, w) = check_in t w"
| "lane_step LOG_PREPEND CheckStatus (t, w) =
     (case check_status LOG_PREPEND t w of Inl e \<Rightarrow> Inl e | Inr (t', r) \<Rightarrow> Inr (t', w))"
| "lane_step LOG_PREPEND Terminate (t, w) =
     (case terminate t w of Inl e \<Rightarrow> Inl e | Inr w' \<Rightarrow> Inr (t, w'))"
| "lane_step LOG_PREPEND (Env ev) (t, w) = Inr (t, apply_env ev w)"

fun lane_exec ::
  "string \<Rightarrow> lane_event list \<Rightarrow> ('c, 'a) BlenderThread \<times> ('c, 'a) world
     \<Rightarrow> error + ('c, 'a) BlenderThread \<times> ('c, 'a) world" where
  "lane_exec LOG_PREPEND [] s = Inr s"
| "lane_exec LOG_PREPEND (ev # evs) s =
     (case lane_step LOG_PREPEND ev s of
        Inl e \<Rightarrow> Inl e
      | Inr s' \<Rightarrow> lane_exec LOG_PREPEND evs s')"

fun check_status_calls ::
  "string \<Rightarrow> ('c, 'a) BlenderThread \<Rightarrow> ('c, 'a) world list
     \<Rightarrow> error + ('c, 'a) BlenderThread \<times> bool list" where
  "check_status_calls LOG_PREPEND t [] = Inr (t, [])"
| "check_status_calls LOG_PREPEND t (w # ws) =
     (case check_status LOG_PREPEND t w of
        Inl e \<Rightarrow> Inl e
      | Inr (t', r) \<Rightarrow>
          (case check_status_calls LOG_PREPEND t' ws of
             Inl e \<Rightarrow> Inl e
           | Inr (t'', rs) \<Rightarrow> Inr (t'', r # rs)))"

text \<open>
  What holds of every lane however its methods are called: the lane is marked finished
  only once its batch index has run past the last batch.
\<close>

definition lane_inv :: "('c, 'a) BlenderThread \<Rightarrow> bool" where
  "lane_inv t = (finished t \<longrightarrow> int (njobs t) \<le> job t)"

text \<open>
  The batches for which a lane has started a worker process, in the order in which the
  processes were started; and what holds of a lane and the process table at every moment
  of a session: the lane has started processes for exactly the batches up to its current
  one, in order, and every process of the lane that has not exited is the one the lane
  holds.
\<close>

definition started_batches :: "('c, 'a) BlenderThread \<Rightarrow> ('c, 'a) world \<Rightarrow> 'a list list" where
  "started_batches t w = map pjobs (filter (\<lambda>p. powner p = name t) (procs w))"

definition lane_ok :: "('c, 'a) BlenderThread \<Rightarrow> ('c, 'a) world \<Rightarrow> bool" where
  "lane_ok t w =
     (njobs t = length (jobs t) \<and> - 1 \<le> job t
      \<and> started_batches t w = take (nat (job t + 1)) (jobs t)
      \<and> (\<forall>h < length (procs w).
            powner (procs w ! h) = name t \<and> \<not> pexited (procs w ! h) \<longrightarrow> process t = Some h))"


text \<open>A lane as its constructor leaves it, before the first \<open>check_in\<close>.\<close>

definition fresh :: "('c, 'a) BlenderThread \<Rightarrow> bool" where
  "fresh t = (njobs t = length (jobs t) \<and> job t = - 1)"

section \<open>BlenderThreadManager: the coordinator\<close>

text \<open>
  \<^verbatim>\<open>str(i)\<close> and \<^verbatim>\<open>f'{i:02d}'\<close> for \<open>i \<ge> 0\<close>, and \<^verbatim>\<open>os.path.join\<close> on
  a POSIX system.
\<close>

definition digit_char :: "nat \<Rightarrow> char" where
  "digit_char d = ''0123456789'' ! d"

fun str_nat :: "nat \<Rightarrow> string" where
  "str_nat n = (if n < 10 then [digit_char n] else str_nat (n div 10) @ [digit_char (n mod 10)])"

declare str_nat.simps [simp del]

definition fmt02d :: "nat \<Rightarrow> string" where
  "fmt02d i = (if i < 10 then CHR ''0'' # str_nat i else str_nat i)"

definition path_join :: "string \<Rightarrow> string \<Rightarrow> string" where
  "path_join a b =
     (if prefix ''/'' b then b
      else if a = [] \<or> suffix ''/'' a then a @ b
      else a @ ''/'' @ b)"

record ('c, 'a) BlenderThreadManager =
  num_threads :: nat
  mgr_command :: 'c
  log_locs :: "string list"
  report_loc :: string
  t0 :: real
  session_start :: "real option"
  threads :: "('c, 'a) BlenderThread list"

fun construct_threads ::
  "'c \<Rightarrow> 'a list list \<Rightarrow> string list \<Rightarrow> bool \<Rightarrow> int \<Rightarrow> nat list
     \<Rightarrow> ('c, 'a) BlenderThread list \<Rightarrow> ('c, 'a) world
     \<Rightarrow> error + ('c, 'a) BlenderThread list \<times> ('c, 'a) world" where
  "construct_threads cmd jsons logs to_out MAX_PER_JOB [] ths w = Inr (ths, w)"
| "construct_threads cmd jsons logs to_out MAX_PER_JOB (i # is) ths w =
     (case BlenderThread_init cmd (jsons ! i) (Some (logs ! i)) (str_nat i) 100 to_out
             MAX_PER_JOB w of
        Inl e \<Rightarrow> Inl e
      | Inr (t, w') \<Rightarrow>
          construct_threads cmd jsons logs to_out MAX_PER_JOB is (ths @ [t]) w')"

definition BlenderThreadManager_init ::
  "'c \<Rightarrow> 'a list list \<Rightarrow> string \<Rightarrow> bool \<Rightarrow> int \<Rightarrow> string \<Rightarrow> string list \<Rightarrow> ('c, 'a) world
     \<Rightarrow> error + ('c, 'a) BlenderThreadManager \<times> ('c, 'a) world" where
  \<comment> \<open>\<open>session_name\<close> is \<^verbatim>\<open>datetime.now().strftime(r"%y%m%d-%H%M%S")\<close> and
      \<open>listing\<close> is \<^verbatim>\<open>os.listdir(output_directory)\<close>, both read from the system.\<close>
  "BlenderThreadManager_init cmd jsons output_directory print_to_stdout MAX_PER_JOB
       session_name listing w =
     (let n = length jsons;
          log_dir = path_join (path_join output_directory ''logs'') session_name;
          logs = map (\<lambda>i. path_join log_dir (''log_'' @ fmt02d i @ ''.txt'')) [0..<n];
          report_fname =
            ''report_'' @ fmt02d (length (filter (sublist ''report'') listing)) @ ''.txt''
      in case construct_threads cmd jsons logs print_to_stdout MAX_PER_JOB [0..<n] [] w of
           Inl e \<Rightarrow> Inl e
         | Inr (ths, w') \<Rightarrow>
             Inr (\<lparr>num_threads = n, mgr_command = cmd, log_locs = logs,
                   report_loc = path_join output_directory report_fname,
                   t0 = 0, session_start = None, threads = ths\<rparr>, w'))"

definition mgr_len :: "('c, 'a) BlenderThreadManager \<Rightarrow> nat" where
  "mgr_len m = sum_list (map size_jobs (threads m))"

fun sum_rendered ::
  "string \<Rightarrow> ('c, 'a) BlenderThread list \<Rightarrow> ('c, 'a) world \<Rightarrow> error + nat" where
  "sum_rendered LOG_PREPEND [] w = Inr 0"
| "sum_rendered LOG_PREPEND (t # ts) w =
     (case num_rendered LOG_PREPEND t w of
        Inl e \<Rightarrow> Inl e
      | Inr n \<Rightarrow>
          (case sum_rendered LOG_PREPEND ts w of
             Inl e \<Rightarrow> Inl e
           | Inr k \<Rightarrow> Inr (n + k)))"

definition mgr_num_rendered ::
  "string \<Rightarrow> ('c, 'a) BlenderThreadManager \<Rightarrow> ('c, 'a) world \<Rightarrow> error + nat" where
  "mgr_num_rendered LOG_PREPEND m w = sum_rendered LOG_PREPEND (threads m) w"

text \<open>
  The report's numbers are laid out by Python's formatting of \<^verbatim>\<open>timedelta\<close>,
  of floats (\<^verbatim>\<open>:.2f\<close>) and of dates (\<^verbatim>\<open>strftime\<close>); these are parameters.
  \<^verbatim>\<open>open(path, 'w')\<close> creates the file or truncates it, and
  \<^verbatim>\<open>writelines\<close> writes the strings one after the other. The estimated end is
  taken to lie within the range of \<^verbatim>\<open>datetime\<close> (up to the year 9999); beyond it
  the addition raises \<^verbatim>\<open>OverflowError\<close>, which is not modelled.
\<close>

record formatters =
  fmt_timedelta :: "int \<Rightarrow> string"
  fmt_2f :: "real \<Rightarrow> string"
  fmt_strftime :: "real \<Rightarrow> string"

definition update_report ::
  "string \<Rightarrow> formatters \<Rightarrow> ('c, 'a) BlenderThreadManager \<Rightarrow> ('c, 'a) world
     \<Rightarrow> error + ('c, 'a) world" where
  "update_report LOG_PREPEND fmt m w =
     (case mgr_num_rendered LOG_PREPEND m w of
        Inl e \<Rightarrow> Inl e
      | Inr n \<Rightarrow>
          let elapsed = fl (perf_counter w - t0 m)
          in if n > 0
             then (case session_start m of
                     None \<Rightarrow> Inl AttributeError
                   | Some started \<Rightarrow>
                       let s_remaining = fl ((real (mgr_len m) - real n) * fl (elapsed / real n));
                           eta = wallclock w + s_remaining;
                           report =
                             [''Number of images rendered: '' @ str_nat n @ [CHR 0x0A],
                              ''Total session quota: '' @ str_nat (mgr_len m) @ [CHR 0x0A],
                              ''Time elapsed: '' @ fmt_timedelta fmt (py_round elapsed)
                                 @ [CHR 0x0A],
                              ''Time per render (s): '' @ fmt_2f fmt (fl (elapsed / real n))
                                 @ [CHR 0x0A, CHR 0x0A],
                              ''Session start: '' @ fmt_strftime fmt started @ [CHR 0x0A]
                                 @ ''Estimated End: '' @ fmt_strftime fmt eta]
                       in Inr (w\<lparr>files := (files w)(report_loc m \<mapsto> concat report)\<rparr>))
             else Inr (w\<lparr>files := (files w)(report_loc m \<mapsto> concat [])\<rparr>))"

subsection \<open>The polling loop of \<open>start\<close>\<close>

text \<open>
  \<^verbatim>\<open>start\<close> is run in steps, and the world may change between any two of them
  (a process exits, a worker writes to its log, time passes, in particular during
  \<^verbatim>\<open>sleep(tick)\<close>). The steps are: one \<^verbatim>\<open>check_in\<close> of the seeding loop
  (\<open>Seed i\<close>); reading one lane's count for its progress bar (\<open>Bars i\<close>); the test
  of the \<^verbatim>\<open>while\<close> loop with the part of the body before the lanes are visited
  (\<open>Cond\<close>); one round of the \<^verbatim>\<open>for\<close> loop over the lanes (\<open>Body i\<close>). The
  progress bars themselves are presentation and are left out. \<open>Done\<close> is the return
  of \<^verbatim>\<open>start\<close>, \<open>Raised e\<close> an exception leaving it.
\<close>

datatype phase = Seed nat | Bars nat | Cond | Body nat | Done | Raised error

record start_args =
  progress_bars :: bool
  tick :: real
  report_every :: real

record ('c, 'a) cfg =
  phase :: phase
  mgr :: "('c, 'a) BlenderThreadManager"
  world :: "('c, 'a) world"
  last_report_time :: real

definition start_cfg ::
  "('c, 'a) BlenderThreadManager \<Rightarrow> ('c, 'a) world \<Rightarrow> ('c, 'a) cfg" where
  "start_cfg m w =
     \<lparr>phase = Seed 0, mgr = m\<lparr>t0 := perf_counter w, session_start := Some (wallclock w)\<rparr>,
      world = w, last_report_time = perf_counter w\<rparr>"

definition visit_lane ::
  "string \<Rightarrow> ('c, 'a) BlenderThread \<Rightarrow> ('c, 'a) world
     \<Rightarrow> error + ('c, 'a) BlenderThread \<times> ('c, 'a) world" where
  \<comment> \<open>the body of \<^verbatim>\<open>for t, thread in enumerate(self.threads)\<close>\<close>
  "visit_lane LOG_PREPEND thread w =
     (if finished thread then Inr (thread, w)
      else (case check_in thread w of
              Inl e \<Rightarrow> Inl e
            | Inr (t1, w1) \<Rightarrow>
                (case success LOG_PREPEND t1 w1 of
                   Inl e \<Rightarrow> Inl e
                 | Inr True \<Rightarrow> Inr (t1, w1)
                 | Inr False \<Rightarrow>
                     (case check_status LOG_PREPEND t1 w1 of
                        Inl e \<Rightarrow> Inl e
                      | Inr (t2, thread_running) \<Rightarrow>
                          if thread_running then Inr (t2, w1)
                          else Inr (t2, w1\<lparr>console := console w1 @
                                      [''CANNOT DEAL WITH FAILED THREADS YET'']\<rparr>)))))"

definition step ::
  "string \<Rightarrow> formatters \<Rightarrow> start_args \<Rightarrow> ('c, 'a) cfg \<Rightarrow> ('c, 'a) cfg" where
  "step LOG_PREPEND fmt args c =
     (case phase c of
        Seed i \<Rightarrow>
          if i < length (threads (mgr c))
          then (case check_in (threads (mgr c) ! i) (world c) of
                  Inl e \<Rightarrow> c\<lparr>phase := Raised e\<rparr>
                | Inr (t, w) \<Rightarrow>
                    c\<lparr>phase := Seed (i + 1),
                      mgr := (mgr c)\<lparr>threads := (threads (mgr c))[i := t]\<rparr>,
                      world := w\<rparr>)
          else c\<lparr>phase := (if progress_bars args then Bars 0 else Done),
                 last_report_time := perf_counter (world c)\<rparr>
      | Bars i \<Rightarrow>
          if i < length (threads (mgr c))
          then (case num_rendered LOG_PREPEND (threads (mgr c) ! i) (world c) of
                  Inl e \<Rightarrow> c\<lparr>phase := Raised e\<rparr>
                | Inr n \<Rightarrow> c\<lparr>phase := Bars (i + 1)\<rparr>)
          else c\<lparr>phase := Cond\<rparr>
      | Cond \<Rightarrow>
          if \<exists>t \<in> set (threads (mgr c)). is_running t (world c)
          then (case mgr_num_rendered LOG_PREPEND (mgr c) (world c) of
                  Inl e \<Rightarrow> c\<lparr>phase := Raised e\<rparr>
                | Inr rendered_images \<Rightarrow>
                    if fl (perf_counter (world c) - last_report_time c) \<ge> report_every args
                    then (case update_report LOG_PREPEND fmt (mgr c) (world c) of
                            Inl e \<Rightarrow> c\<lparr>phase := Raised e\<rparr>
                          | Inr w \<Rightarrow>
                              c\<lparr>phase := Body 0, world := w, last_report_time := perf_counter w\<rparr>)
                    else c\<lparr>phase := Body 0\<rparr>)
          else (case update_report LOG_PREPEND fmt (mgr c) (world c) of
                  Inl e \<Rightarrow> c\<lparr>phase := Raised e\<rparr>
                | Inr w \<Rightarrow> c\<lparr>phase := Done, world := w\<rparr>)
      | Body i \<Rightarrow>
          if i < length (threads (mgr c))
          then (case visit_lane LOG_PREPEND (threads (mgr c) ! i) (world c) of
                  Inl e \<Rightarrow> c\<lparr>phase := Raised e\<rparr>
                | Inr (t, w) \<Rightarrow>
                    c\<lparr>phase := Body (i + 1),
                      mgr := (mgr c)\<lparr>threads := (threads (mgr c))[i := t]\<rparr>,
                      world := w\<rparr>)
          else c\<lparr>phase := Cond\<rparr>
      | Done \<Rightarrow> c
      | Raised e \<Rightarrow> c)"

datatype event = Step | World env_event

fun exec ::
  "string \<Rightarrow> formatters \<Rightarrow> start_args \<Rightarrow> event list \<Rightarrow> ('c, 'a) cfg \<Rightarrow> ('c, 'a) cfg" where
  "exec LOG_PREPEND fmt args [] c = c"
| "exec LOG_PREPEND fmt args (Step # evs) c =
     exec LOG_PREPEND fmt args evs (step LOG_PREPEND fmt args c)"
| "exec LOG_PREPEND fmt args (World ev # evs) c =
     exec LOG_PREPEND fmt args evs (c\<lparr>world := apply_env ev (world c)\<rparr>)"

definition lanes_inv :: "('c, 'a) BlenderThread list \<Rightarrow> ('c, 'a) world \<Rightarrow> bool" where
  "lanes_inv ths w = (distinct (map name ths) \<and> (\<forall>i < length ths. lane_ok (ths ! i) w))"

section \<open>Concrete inputs\<close>

text \<open>A world in which nothing has happened yet, for evaluating the model.\<close>

definition world0 :: "(string list, string) world" where
  "world0 = \<lparr>procs = [], files = Map.empty, console = [], now = 0, wallclock = 0\<rparr>"

text \<open>
  A lane of one job, constructed in \<open>world0\<close> with the default timeout of 100 seconds
  and a log file, and the same lane after its first \<open>check_in\<close>, which starts the
  worker process of its only batch.
\<close>

definition lane_new :: "(string list, string) BlenderThread \<times> (string list, string) world" where
  "lane_new =
     projr (BlenderThread_init [''blender''] [''a.json''] (Some ''log_00.txt'') ''0'' 100 False
              100 world0)"

definition lane_started :: "(string list, string) BlenderThread \<times> (string list, string) world" where
  "lane_started = projr (check_in (fst lane_new) (snd lane_new))"

text \<open>The lane after its worker has exited and a second \<open>check_in\<close> has seen it.\<close>

definition lane_done :: "(string list, string) BlenderThread \<times> (string list, string) world" where
  "lane_done = projr (lane_exec ''RENDERED'' [CheckIn, Env (Exit 0), CheckIn] lane_new)"

text \<open>
  A session of one lane with two jobs and \<open>MAX_PER_JOB = 1\<close>, so two batches, in
  an output directory that holds \<open>report_01.txt\<close> from an earlier run (and no
  \<open>report_00.txt\<close>), so that the new report gets the same name. The formatters are
  stand-ins; \<open>run0\<close> runs \<open>start\<close> on that session along a schedule.
\<close>

definition world_old :: "(string list, string) world" where
  "world_old = world0\<lparr>files := [''out/report_01.txt'' \<mapsto> ''old report'']\<rparr>"

definition session_new ::
  "(string list, string) BlenderThreadManager \<times> (string list, string) world" where
  "session_new =
     projr (BlenderThreadManager_init [''blender''] [[''a.json'', ''b.json'']] ''out'' False 1
              ''s'' [''report_01.txt''] world_old)"

definition fmt0 :: formatters where
  "fmt0 = \<lparr>fmt_timedelta = (\<lambda>s. str_nat (nat s)), fmt_2f = (\<lambda>x. str_nat (nat \<lfloor>x\<rfloor>)),
           fmt_strftime = (\<lambda>x. str_nat (nat \<lfloor>x\<rfloor>))\<rparr>"

definition args0 :: start_args where
  "args0 = \<lparr>progress_bars = True, tick = 1 / 2, report_every = 15\<rparr>"

definition run0 :: "event list \<Rightarrow> (string list, string) cfg" where
  "run0 evs = exec ''RENDERED'' fmt0 args0 evs (start_cfg (fst session_new) (snd session_new))"


definition lane_a :: "(string list, string) BlenderThread" where
  "lane_a = \<lparr>command = [''blender''], jobs = [[''a.json''], [''b.json'']],
           njobs = 2, size_jobs = 2, timeout = 100, prev_n = 0, timer = 0,
           to_stdout = False, log_loc = Some ''out/logs/s/log_00.txt'',
           process = None, job = - 1, finished = False, name = ''0'',
           status = Started ''0''\<rparr>"

definition lane_a1 :: "(string list, string) BlenderThread" where
  "lane_a1 = lane_a\<lparr>process := Some 0, job := 0, status := RunningJob ''0'' 1 2\<rparr>"

definition proc_a :: "(string list, string) proc" where
  "proc_a = \<lparr>pcommand = [''blender''], pjobs = [''a.json''],
      pstdout = Some ''out/logs/s/log_00.txt'', powner = ''0'', pexited = False\<rparr>"

text \<open>
  The session once \<open>start\<close> has seeded its lane and reached the test of its loop,
  and the world after the worker has then reported one rendered job.
\<close>

definition cfg_seeded :: "(string list, string) cfg" where
  "cfg_seeded = run0 [Step, Step, Step, Step]"

definition world_one :: "(string list, string) world" where
  "world_one =
     apply_env (Emit ''out/logs/s/log_00.txt'' (''RENDERED a.json'' @ [CHR 0x0A]))
       (world cfg_seeded)"

text \<open>
  Three continuations from there. In \<open>cfg_second\<close> the loop is entered, the worker of
  the first batch exits and the lane is visited. In \<open>cfg_early\<close> the worker of the
  first batch exits before the loop's test is evaluated for the first time. In
  \<open>cfg_stalled\<close> the worker stays alive and silent for 200 seconds, the loop is entered
  and the lane is visited; \<open>cfg_stalled_again\<close> is the same session one more round of
  the loop and another 200 seconds later.
\<close>

definition cfg_second :: "(string list, string) cfg" where
  "cfg_second = run0 [Step, Step, Step, Step, Step, World (Exit 0), Step]"

definition cfg_early :: "(string list, string) cfg" where
  "cfg_early = run0 [Step, Step, Step, Step, World (Exit 0), Step]"

definition cfg_stalled :: "(string list, string) cfg" where
  "cfg_stalled = run0 [Step, Step, Step, Step, World (Advance 200), Step, Step]"

definition cfg_stalled_again :: "(string list, string) cfg" where
  "cfg_stalled_again =
     run0 [Step, Step, Step, Step, World (Advance 200), Step, Step,
           Step, World (Advance 200), Step, Step]"

definition proc_b :: "(string list, string) proc" where
  "proc_b = \<lparr>pcommand = [''blender''], pjobs = [''b.json''],
      pstdout = Some ''out/logs/s/log_00.txt'', powner = ''0'', pexited = False\<rparr>"

section \<open>Properties of the float operations\<close>

lemma py_round_of_int [simp]: "py_round (of_int z) = z"
  by (simp add: py_round_def)

lemma fl_0 [simp]: "fl 0 = 0"
  by (simp add: fl_def)

text \<open>Integers below \<open>2^53\<close> in magnitude are doubles.\<close>

lemma fl_of_int:
  assumes "\<bar>m\<bar> < 2 ^ 53"
  shows "fl (of_int m) = of_int m"
proof (cases "m = 0")
  case True
  then show ?thesis by simp
next
  case False
  define e where "e = max (\<lfloor>log 2 \<bar>real_of_int m\<bar>\<rfloor> - 52) (- 1074)"
  have pos: "0 < \<bar>real_of_int m\<bar>" using False by simp
  have "\<bar>real_of_int m\<bar> < 2 ^ 53"
    using assms by (metis of_int_abs of_int_less_iff of_int_numeral of_int_power)
  then have "\<bar>real_of_int m\<bar> < 2 powr 53" by (simp add: powr_realpow)
  then have "log 2 \<bar>real_of_int m\<bar> < 53" using pos by (simp add: log_less_iff)
  then have "\<lfloor>log 2 \<bar>real_of_int m\<bar>\<rfloor> \<le> 52" by (simp add: floor_le_iff)
  then have e: "e \<le> 0" by (simp add: e_def)
  define n where "n = nat (- e)"
  have p: "2 powr real_of_int e = inverse (2 ^ n)"
    using e by (simp add: powr_real_of_int n_def)
  have "real_of_int m / 2 powr real_of_int e = of_int (m * 2 ^ n)"
    by (simp add: p divide_inverse)
  then have "py_round (real_of_int m / 2 powr real_of_int e) = m * 2 ^ n"
    by (simp only: py_round_of_int)
  then have "of_int (py_round (real_of_int m / 2 powr real_of_int e)) * 2 powr real_of_int e
               = real_of_int m"
    by (simp add: p)
  then show ?thesis using False by (simp add: fl_def e_def Let_def)
qed

lemma fl_numeral [simp]: "(numeral k :: int) < 2 ^ 53 \<Longrightarrow> fl (numeral k) = numeral k"
  using fl_of_int [of "numeral k"] by simp

lemma not_underflows: "0 < n \<Longrightarrow> \<bar>m\<bar> < 2 ^ 1075 \<Longrightarrow> \<not> underflows n m"
proof -
  assume n: "0 < n" and m: "\<bar>m\<bar> < 2 ^ 1075"
  have "(1::int) * 2 ^ 1075 \<le> int n * 2 ^ 1075"
    using n by (intro mult_right_mono) simp_all
  then show ?thesis using m by (simp add: underflows_def)
qed

section \<open>Properties of job splitting\<close>

lemma slices_chop:
  "map (\<lambda>i. slice xs ((a # cumsum_from a ss) ! i) ((a # cumsum_from a ss) ! (i + 1))) [0..<length ss]
     = chop ss (drop a xs)"
proof (induction ss arbitrary: a)
  case Nil
  show ?case by simp
next
  case (Cons s ss)
  have "[0..<length (s # ss)] = 0 # map Suc [0..<length ss]"
    by (simp add: upt_conv_Cons map_Suc_upt del: upt_Suc)
  then show ?case
    using Cons.IH [of "a + s"] by (simp add: slice_def o_def add.commute)
qed

lemma concat_chop: "sum_list ss = length xs \<Longrightarrow> concat (chop ss xs) = xs"
  by (induction ss arbitrary: xs) auto

lemma length_chop: "length (chop ss xs) = length ss"
  by (induction ss arbitrary: xs) auto

lemma map_length_chop: "sum_list ss \<le> length xs \<Longrightarrow> map length (chop ss xs) = ss"
  by (induction ss arbitrary: xs) auto

lemma section_sizes_eq: "section_sizes n k = 0 # sizes n k"
  by (simp add: section_sizes_def sizes_def Let_def)

lemma length_sizes: "0 < k \<Longrightarrow> length (sizes n k) = k"
  by (simp add: sizes_def)

lemma sum_sizes: "0 < k \<Longrightarrow> sum_list (sizes n k) = n"
proof -
  assume k: "0 < k"
  have "n mod k \<le> k" using k by simp
  then have "sum_list (sizes n k) = k * (n div k) + n mod k"
    by (simp add: sizes_def sum_list_replicate algebra_simps)
  then show ?thesis by simp
qed

lemma array_split_chop:
  "0 < k \<Longrightarrow> array_split xs k = Inr (chop (sizes (length xs) (nat k)) xs)"
  using slices_chop [of xs 0 "sizes (length xs) (nat k)"]
  by (simp add: array_split_def cumsum_def section_sizes_eq length_sizes)


lemma set_sizes: "x \<in> set (sizes n k) \<Longrightarrow> x = n div k \<or> x = n div k + 1"
  by (auto simp: sizes_def)

lemma map_length_array_split:
  assumes "0 < k"
  shows "map length (chop (sizes (length xs) (nat k)) xs) = sizes (length xs) (nat k)"
  using assms by (intro map_length_chop) (simp add: sum_sizes)

lemma ceil_div_pos:
  assumes "0 < n" "0 < m" "\<not> underflows n m"
  shows "\<exists>k. ceil_div n m = Inr k \<and> 0 < k \<and> k = \<lceil>real n / real_of_int m\<rceil>
           \<and> int n \<le> k * m \<and> k \<le> int n"
proof -
  let ?k = "- ((- int n) div m)"
  have c: "ceil_div n m = Inr ?k" using assms by (simp add: ceil_div_def)
  have e: "?k = \<lceil>real n / real_of_int m\<rceil>"
    using ceiling_divide_eq_div [of "int n" m, where ?'a = real] by simp
  have "real n / real_of_int m > 0" using assms by simp
  then have p: "0 < ?k" unfolding e by simp
  have "real n / real_of_int m \<le> real_of_int ?k" unfolding e by linarith
  then have "real n \<le> real_of_int ?k * real_of_int m"
    using assms by (simp add: pos_divide_le_eq)
  then have u: "int n \<le> ?k * m"
    by (metis of_int_le_iff of_int_mult of_int_of_nat_eq)
  have "real n / real_of_int m \<le> real n"
    using assms by (simp add: pos_divide_le_eq mult_le_cancel_left1)
  then have "\<lceil>real n / real_of_int m\<rceil> \<le> \<lceil>real n\<rceil>" by (rule ceiling_mono)
  then have l: "?k \<le> int n" unfolding e by simp
  from c e p u l show ?thesis by blast
qed

lemma sizes_bounds:
  assumes "0 < k" "k \<le> n" "n \<le> k * m" "x \<in> set (sizes n k)"
  shows "0 < x \<and> x \<le> m"
proof -
  have d: "0 < n div k" using assms(1,2) by (simp add: div_greater_zero_iff)
  have dm: "n div k \<le> m"
  proof -
    have "n div k \<le> (k * m) div k" using assms(3) by (rule div_le_mono)
    then show ?thesis using assms(1) by simp
  qed
  show ?thesis
  proof (cases "n mod k = 0")
    case True
    then have "x = n div k" using assms(4) by (auto simp: sizes_def)
    then show ?thesis using d dm by simp
  next
    case False
    have "n div k < m"
    proof (rule ccontr)
      assume "\<not> n div k < m"
      then have "m \<le> n div k" by simp
      then have a: "k * m \<le> k * (n div k)" by simp
      have b: "k * (n div k) + n mod k = n" by simp
      have c: "0 < n mod k" using False by simp
      from a b c assms(3) show False by linarith
    qed
    then show ?thesis using set_sizes [OF assms(4)] d by auto
  qed
qed


lemma chunk_jobs_chop:
  assumes "js \<noteq> []" "0 < M" "\<not> underflows (length js) M"
  shows "\<exists>k. 0 < k \<and> int k = \<lceil>real (length js) / real_of_int M\<rceil> \<and> k \<le> length js
            \<and> length js \<le> k * nat M
            \<and> chunk_jobs js M = Inr (chop (sizes (length js) k) js)"
proof -
  have n: "0 < length js" using assms(1) by simp
  from ceil_div_pos [OF n assms(2,3)] obtain c where
    c: "ceil_div (length js) M = Inr c" "0 < c" "c = \<lceil>real (length js) / real_of_int M\<rceil>"
       "int (length js) \<le> c * M" "c \<le> int (length js)"
    by blast
  have 1: "chunk_jobs js M = Inr (chop (sizes (length js) (nat c)) js)"
    using c(1,2) by (simp add: chunk_jobs_def list_split_def array_split_chop)
  have "int (length js) \<le> int (nat c * nat M)"
    using c(2,4) assms(2) by simp
  then have 2: "length js \<le> nat c * nat M" by (simp only: of_nat_le_iff)
  have 3: "nat c \<le> length js" using c(5) by simp
  show ?thesis
    using 1 2 3 c(2,3) by (intro exI [of _ "nat c"]) simp
qed

text \<open>
  C6. For every job list and every lane count \<open>L > 0\<close>, \<open>list_split\<close> returns
  \<open>L\<close> lanes whose sizes differ by at most one and whose concatenation in lane order
  is the input list itself: every job is in exactly one lane, and the jobs keep their
  relative order.
\<close>

theorem list_split_lanes:
  assumes "0 < L"
  shows "\<exists>lanes. list_split js L = Inr lanes \<and> length lanes = nat L \<and> concat lanes = js
           \<and> (\<forall>a \<in> set lanes. \<forall>b \<in> set lanes. length a \<le> length b + 1)"
proof -
  let ?ss = "sizes (length js) (nat L)"
  let ?lanes = "chop ?ss js"
  have k: "0 < nat L" using assms by simp
  have 1: "list_split js L = Inr ?lanes"
    using assms by (simp add: list_split_def array_split_chop)
  have 2: "length ?lanes = nat L"
    using k by (simp add: length_chop length_sizes)
  have 3: "concat ?lanes = js"
    using k by (simp add: concat_chop sum_sizes)
  have ml: "map length ?lanes = ?ss"
    using assms by (rule map_length_array_split)
  have 4: "length a \<le> length b + 1" if "a \<in> set ?lanes" "b \<in> set ?lanes" for a b
  proof -
    have "length a \<in> set (map length ?lanes)" "length b \<in> set (map length ?lanes)"
      using that by auto
    then have "length a \<in> set ?ss" "length b \<in> set ?ss"
      by (simp_all only: ml)
    then show ?thesis
      by (auto dest!: set_sizes)
  qed
  from 1 2 3 4 show ?thesis by blast
qed


theorem list_split_lanes_witness:
  "(0::int) < 3 \<and>
   (\<exists>lanes. list_split [1, 2, 3, 4, 5, 6, 7 :: nat] 3 = Inr lanes \<and> length lanes = nat 3
      \<and> concat lanes = [1, 2, 3, 4, 5, 6, 7]
      \<and> (\<forall>a \<in> set lanes. \<forall>b \<in> set lanes. length a \<le> length b + 1))"
proof -
  have h: "(0::int) < 3" by simp
  show ?thesis using h list_split_lanes [OF h, of "[1, 2, 3, 4, 5, 6, 7 :: nat]"] by simp
qed


text \<open>
  C1, as the code has it. For a non-empty lane job list of length \<open>n < 2^53\<close> and
  \<open>MAX_PER_JOB = M\<close> with \<open>0 < M < n * 2^1075\<close> (the float quotient \<open>n / M\<close> is
  then computed without underflow and rounds up to \<open>\<lceil>n / M\<rceil>\<close>), the constructor
  cuts the list into \<open>\<lceil>n / M\<rceil>\<close> batches whose concatenation in order is the lane
  list; no batch is empty, no batch is larger than \<open>M\<close>, and the batch sizes differ
  by at most one (the sections of \<open>array_split\<close> are balanced, not filled up to
  \<open>M\<close>). A lane of 125 jobs with \<open>M = 100\<close> is cut into batches of sizes 63 and 62.
\<close>

theorem BlenderThread_init_batches:
  assumes "js \<noteq> []" "0 < M" "length js < 2 ^ 53" "M < int (length js) * 2 ^ 1075"
  shows "\<exists>t w'. BlenderThread_init cmd js loc nm tmo to_out M w = Inr (t, w')
           \<and> njobs t = length (jobs t)
           \<and> int (njobs t) = \<lceil>real (length js) / real_of_int M\<rceil>
           \<and> concat (jobs t) = js
           \<and> (\<forall>b \<in> set (jobs t). b \<noteq> [] \<and> int (length b) \<le> M)
           \<and> (\<forall>a \<in> set (jobs t). \<forall>b \<in> set (jobs t). length a \<le> length b + 1)
           \<and> (length js = 125 \<and> M = 100 \<longrightarrow> map length (jobs t) = [63, 62])"
proof -
  have nu: "\<not> underflows (length js) M"
    using assms(2,4) by (simp add: underflows_def)
  from chunk_jobs_chop [OF assms(1,2) nu] obtain k where
    k: "0 < k" "int k = \<lceil>real (length js) / real_of_int M\<rceil>" "k \<le> length js"
       "length js \<le> k * nat M" "chunk_jobs js M = Inr (chop (sizes (length js) k) js)"
    by blast
  let ?ss = "sizes (length js) k"
  let ?bs = "chop ?ss js"
  obtain t w' where tw: "BlenderThread_init cmd js loc nm tmo to_out M w = Inr (t, w')"
    and j: "jobs t = ?bs" and nj: "njobs t = length ?bs"
    using k(5) by (cases loc; cases to_out) (simp_all add: BlenderThread_init_def)
  have ml: "map length ?bs = ?ss"
    using k(1) by (intro map_length_chop) (simp add: sum_sizes)
  have len: "length ?bs = k" using k(1) by (simp add: length_chop length_sizes)
  have cc: "concat ?bs = js" using k(1) by (simp add: concat_chop sum_sizes)
  have mem: "length b \<in> set ?ss" if "b \<in> set ?bs" for b
  proof -
    have "length b \<in> set (map length ?bs)" using that by auto
    then show ?thesis by (simp only: ml)
  qed
  have bnd: "b \<noteq> [] \<and> int (length b) \<le> M" if "b \<in> set ?bs" for b
  proof -
    from sizes_bounds [OF k(1) k(3) k(4) mem [OF that]]
    have "0 < length b" "length b \<le> nat M" by simp_all
    then show ?thesis using assms(2) by auto
  qed
  have bal: "length a \<le> length b + 1" if "a \<in> set ?bs" "b \<in> set ?bs" for a b
    using set_sizes [OF mem [OF that(1)]] set_sizes [OF mem [OF that(2)]] by auto
  have ex: "map length ?bs = [63, 62]" if "length js = 125" "M = 100"
  proof -
    have "k = 2" using k(2) that by simp
    then show ?thesis using ml that by (simp add: sizes_def)
  qed
  show ?thesis
    using tw j nj len k(2) cc bnd bal ex by (intro exI [of _ t] exI [of _ w']) simp
qed


theorem BlenderThread_init_batches_witness:
  "[''a'', ''b'', ''c''] \<noteq> [] \<and> (0::int) < 2
   \<and> length [''a'', ''b'', ''c''] < 2 ^ 53
   \<and> (2::int) < int (length [''a'', ''b'', ''c'']) * 2 ^ 1075 \<and>
   (\<exists>t w'. BlenderThread_init [''blender''] [''a'', ''b'', ''c''] None ''0'' 100 False 2 world0
              = Inr (t, w')
      \<and> njobs t = length (jobs t)
      \<and> int (njobs t) = \<lceil>real (length [''a'', ''b'', ''c'']) / real_of_int 2\<rceil>
      \<and> concat (jobs t) = [''a'', ''b'', ''c'']
      \<and> (\<forall>b \<in> set (jobs t). b \<noteq> [] \<and> int (length b) \<le> 2)
      \<and> (\<forall>a \<in> set (jobs t). \<forall>b \<in> set (jobs t). length a \<le> length b + 1)
      \<and> (length [''a'', ''b'', ''c''] = 125 \<and> (2::int) = 100 \<longrightarrow> map length (jobs t) = [63, 62]))"
proof -
  have h1: "[''a'', ''b'', ''c''] \<noteq> []" by simp
  have h2: "(0::int) < 2" by simp
  have h3: "length [''a'', ''b'', ''c''] < 2 ^ 53" by simp
  have h4: "(2::int) < int (length [''a'', ''b'', ''c'']) * 2 ^ 1075" by simp
  show ?thesis
    using h1 h2 h3 h4
      BlenderThread_init_batches [OF h1 h2 h3 h4, of "[''blender'']" None "''0''" 100 False
        world0]
    by blast
qed

text \<open>
  The claim as written asks for batches of size exactly \<open>M\<close> except the last, sizes
  100 and 25 for 125 jobs; the code produces 63 and 62. And it asks for \<open>\<lceil>n / M\<rceil>\<close>
  batches for every \<open>M > 0\<close>; with \<open>M = 10^400\<close> the quotient \<open>125 / M\<close> is
  \<open>0.0\<close> as a float, no section is requested and the constructor raises.
\<close>

theorem BlenderThread_init_batches_counterexample:
  "map_sum id (map length) (chunk_jobs [0..<125] 100) = Inr [63, 62]
   \<and> map_sum id (map length) (chunk_jobs [0..<125] 100) \<noteq> Inr [100, 25]
   \<and> chunk_jobs [0..<125] (10 ^ 400) = Inl ValueError"
proof -
  have "map_sum id (map length) (chunk_jobs [0..<125] 100) = Inr [63, 62]"
    by code_simp
  moreover have "chunk_jobs [0..<125] (10 ^ 400) = Inl ValueError"
    by (simp add: chunk_jobs_def ceil_div_def underflows_def list_split_def array_split_def)
  ultimately show ?thesis by simp
qed

text \<open>
  C10. Constructing a \<open>BlenderThread\<close> with an empty job list raises: for a non-zero
  \<open>MAX_PER_JOB\<close> the chunking asks \<open>array_split\<close> for \<open>\<lceil>0 / M\<rceil> = 0\<close> sections,
  which is a \<open>ValueError\<close> (and a zero \<open>MAX_PER_JOB\<close> is a division by zero before
  that). No lane with zero batches is produced.
\<close>

theorem BlenderThread_init_empty:
  "BlenderThread_init cmd [] loc nm tmo to_out M w =
     Inl (if M = 0 then ZeroDivisionError else ValueError)"
  by (simp add: BlenderThread_init_def chunk_jobs_def ceil_div_def underflows_def list_split_def
      array_split_def)



section \<open>Properties of a lane\<close>

subsection \<open>Evaluating the concrete lanes\<close>

lemma lane_new_eval:
  "lane_new = (\<lparr>command = [''blender''], jobs = [[''a.json'']], njobs = 1, size_jobs = 1,
                   timeout = 100, prev_n = 0, timer = 0, to_stdout = False,
                   log_loc = Some ''log_00.txt'', process = None, job = - 1, finished = False, name = ''0'',
                   status = Started ''0''\<rparr>, world0\<lparr>files := [''log_00.txt'' \<mapsto> []]\<rparr>)"
  by (simp add: lane_new_def BlenderThread_init_def chunk_jobs_def ceil_div_def underflows_def
      list_split_def array_split_def section_sizes_def cumsum_def slice_def world0_def
      perf_counter_def)

lemma lane_started_eval:
  "lane_started = (\<lparr>command = [''blender''], jobs = [[''a.json'']], njobs = 1, size_jobs = 1,
                   timeout = 100, prev_n = 0, timer = 0, to_stdout = False,
                   log_loc = Some ''log_00.txt'', process = Some 0, job = 0, finished = False, name = ''0'',
                   status = RunningJob ''0'' 1 1\<rparr>, 
      \<lparr>procs = [\<lparr>pcommand = [''blender''], pjobs = [''a.json''], pstdout = Some ''log_00.txt'', powner = ''0'', pexited = False\<rparr>], 
         files = [''log_00.txt'' \<mapsto> []], console = [], now = 0, wallclock = 0\<rparr>)"
  by (simp add: lane_started_def lane_new_eval check_in_def is_running_def start_job_def getitem_def world0_def)


lemma lane_done_eval:
  "lane_done = ((fst lane_started)\<lparr>job := 1, finished := True, status := Completed ''0''\<rparr>,
                apply_env (Exit 0) (snd lane_started))"
  by (simp add: lane_done_def lane_new_eval lane_started_eval check_in_def is_running_def
      poll_running_def start_job_def getitem_def world0_def)

subsection \<open>Stall detection\<close>

lemma num_rendered_upd [simp]:
  "num_rendered LP (t\<lparr>prev_n := p, timer := x\<rparr>) w = num_rendered LP t w"
  by (simp add: num_rendered_def)

text \<open>
  What one call does. A count above the recorded one is recorded, the timer is set to
  the clock reading and the call returns true. Otherwise nothing is recorded and the
  call returns false exactly when the float difference of the clock reading and the
  timer has reached the timeout.
\<close>

lemma check_status_progress:
  "num_rendered LP t w = Inr n \<Longrightarrow> prev_n t < n \<Longrightarrow>
   check_status LP t w = Inr (t\<lparr>prev_n := n, timer := perf_counter w\<rparr>, True)"
  by (simp add: check_status_def)

lemma check_status_no_progress:
  "num_rendered LP t w = Inr n \<Longrightarrow> n \<le> prev_n t \<Longrightarrow>
   check_status LP t w = Inr (t, fl (perf_counter w - timer t) < timeout t)"
  by (auto simp: check_status_def)

lemma check_status_calls_no_progress:
  "\<forall>w \<in> set ws. \<exists>n \<le> prev_n t. num_rendered LP t w = Inr n \<Longrightarrow>
   check_status_calls LP t ws
     = Inr (t, map (\<lambda>w. fl (perf_counter w - timer t) < timeout t) ws)"
proof (induction ws)
  case Nil
  show ?case by simp
next
  case (Cons w ws)
  from Cons.prems obtain n where n: "n \<le> prev_n t" "num_rendered LP t w = Inr n"
    by auto
  have "check_status LP t w = Inr (t, fl (perf_counter w - timer t) < timeout t)"
    using n(2,1) by (rule check_status_no_progress)
  moreover have "check_status_calls LP t ws
      = Inr (t, map (\<lambda>w. fl (perf_counter w - timer t) < timeout t) ws)"
    using Cons by simp
  ultimately show ?case by simp
qed

text \<open>
  The rounding of the difference shows at the boundary: a timer set \<open>2^-60\<close>
  seconds after the origin of the clock and a reading of 100 seconds differ by less than
  100 seconds, and their float difference is 100.
\<close>

lemma fl_below_100: "fl (100 - 1 / 2 ^ 60) = 100"
proof -
  let ?x = "100 - 1 / 2 ^ 60 :: real"
  have lo: "2 powr 6 \<le> ?x"
  proof -
    have "(1::real) / 2 ^ 60 \<le> 1" by simp
    then have "(64::real) \<le> ?x" by linarith
    moreover have "(2::real) powr 6 = 64" by (simp add: powr_numeral)
    ultimately show ?thesis by simp
  qed
  have hi: "?x < 2 powr 7"
  proof -
    have "(0::real) < 1 / 2 ^ 60" by simp
    then have "?x < 128" by linarith
    moreover have "(2::real) powr 7 = 128" by (simp add: powr_numeral)
    ultimately show ?thesis by simp
  qed
  have pos: "0 < ?x" using lo by (smt (verit) powr_gt_zero)
  have "6 \<le> log 2 ?x" using lo pos by (simp add: le_log_iff)
  moreover have "log 2 ?x < 7" using hi pos by (simp add: log_less_iff)
  ultimately have fl6: "\<lfloor>log 2 ?x\<rfloor> = 6" by (simp add: floor_eq_iff)
  have e: "max (\<lfloor>log 2 \<bar>?x\<bar>\<rfloor> - 52) (- 1074) = - 46"
    using fl6 pos by simp
  have p: "(2::real) powr (- 46) = inverse (2 ^ 46)"
    by (simp add: powr_minus powr_numeral)
  have s: "(2::real) ^ 60 = 2 ^ 14 * 2 ^ 46" by simp
  have "?x / inverse (2 ^ 46) = ?x * 2 ^ 46" by (simp only: divide_inverse inverse_inverse_eq)
  also have "\<dots> = 100 * 2 ^ 46 - (1 / 2 ^ 60) * 2 ^ 46" by (simp only: left_diff_distrib)
  also have "(1 / 2 ^ 60) * 2 ^ 46 = (1 / 2 ^ 14 :: real)" unfolding s by simp
  finally have q: "?x / inverse (2 ^ 46) = 100 * 2 ^ 46 - 1 / 2 ^ 14" .
  have fr: "\<lfloor>(100 * 2 ^ 46 - 1 / 2 ^ 14 :: real)\<rfloor> = 100 * 2 ^ 46 - 1"
    by (rule floor_unique) simp_all
  have r: "py_round (100 * 2 ^ 46 - 1 / 2 ^ 14) = 100 * 2 ^ 46"
    unfolding py_round_def Let_def fr by simp
  have "fl ?x = of_int (py_round (?x / 2 powr (- 46))) * 2 powr (- 46)"
    using pos e by (simp add: fl_def Let_def)
  also have "\<dots> = of_int (100 * 2 ^ 46) * inverse (2 ^ 46)"
    by (simp only: p q r)
  also have "\<dots> = 100" by simp
  finally show ?thesis .
qed

lemma check_status_rounds_up:
  assumes "num_rendered LP t w = Inr n" "n \<le> prev_n t"
    and "timer t = 1 / 2 ^ 60" "timeout t = 100" "now w = 100"
  shows "check_status LP t w = Inr (t, False)" and "now w - timer t < timeout t"
proof -
  have "perf_counter w = 100"
    using assms(5) by (simp add: perf_counter_def)
  then have "perf_counter w - timer t = 100 - 1 / 2 ^ 60"
    by (simp only: assms(3))
  then have "fl (perf_counter w - timer t) = 100"
    by (simp only: fl_below_100)
  then show "check_status LP t w = Inr (t, False)"
    using check_status_no_progress [OF assms(1,2)] assms(4) by simp
  show "now w - timer t < timeout t"
    using assms(3,4,5) by simp
qed

text \<open>
  C5 asks that \<open>check_status\<close> returns false exactly once the time without progress
  exceeds the timeout, and true on every poll before; the docstring of
  \<open>check_status\<close> says the same (false if the timeout is exceeded). The comparison
  in the code is \<open>\<ge>\<close>. The started lane has its timer at 0 and the default timeout
  of 100 seconds, and its worker reports nothing: polled after 99 seconds it returns
  true; polled after exactly 100 seconds, when the time without progress equals the
  timeout and does not exceed it, it returns false.
\<close>

theorem check_status_false_at_timeout:
  "check_status ''RENDERED'' (fst lane_started) (apply_env (Advance 99) (snd lane_started))
     = Inr (fst lane_started, True)
   \<and> check_status ''RENDERED'' (fst lane_started) (apply_env (Advance 100) (snd lane_started))
       = Inr (fst lane_started, False)
   \<and> perf_counter (apply_env (Advance 100) (snd lane_started)) - timer (fst lane_started)
       = timeout (fst lane_started)
   \<and> \<not> (perf_counter (apply_env (Advance 100) (snd lane_started)) - timer (fst lane_started)
          > timeout (fst lane_started))"
  by (simp add: lane_started_eval check_status_def num_rendered_def readlines_def
      perf_counter_def)

subsection \<open>The finished state\<close>

lemma BlenderThread_init_Inr:
  assumes "BlenderThread_init cmd js loc nm tmo to_out M w = Inr (t, w')"
  shows "chunk_jobs js M = Inr (jobs t) \<and> njobs t = length (jobs t) \<and> \<not> finished t
           \<and> process t = None \<and> job t = - 1 \<and> name t = nm \<and> timeout t = tmo
           \<and> timer t = perf_counter w \<and> prev_n t = 0 \<and> size_jobs t = length js
           \<and> procs w' = procs w \<and> now w' = now w"
  using assms
  by (auto simp: BlenderThread_init_def Let_def split: sum.splits option.splits if_splits)

lemma BlenderThread_init_not_finished:
  "BlenderThread_init cmd js loc nm tmo to_out M w = Inr (t, w') \<Longrightarrow> \<not> finished t"
  by (simp add: BlenderThread_init_Inr)

lemma start_job_fields:
  "start_job t j w = Inr (t', w') \<Longrightarrow>
   finished t' = finished t \<and> job t' = job t \<and> njobs t' = njobs t \<and> name t' = name t"
  by (auto simp: start_job_def split: sum.splits)

lemma check_in_inv: "lane_inv t \<Longrightarrow> check_in t w = Inr (t', w') \<Longrightarrow> lane_inv t'"
  by (auto simp: check_in_def lane_inv_def Let_def split: if_splits dest!: start_job_fields)

lemma check_status_fields:
  "check_status LP t w = Inr (t', r) \<Longrightarrow>
   finished t' = finished t \<and> job t' = job t \<and> njobs t' = njobs t \<and> name t' = name t
   \<and> process t' = process t"
  by (auto simp: check_status_def split: sum.splits if_splits)

lemma lane_step_inv:
  "lane_inv (fst s) \<Longrightarrow> lane_step LP ev s = Inr s' \<Longrightarrow> lane_inv (fst s')"
proof (cases s)
  case (Pair t w)
  assume inv: "lane_inv (fst s)" and st: "lane_step LP ev s = Inr s'"
  show ?thesis
  proof (cases ev)
    case CheckIn
    then show ?thesis using inv st Pair by (cases s') (auto dest: check_in_inv)
  next
    case CheckStatus
    then show ?thesis using inv st Pair
      by (auto simp: lane_inv_def split: sum.splits dest!: check_status_fields)
  next
    case Terminate
    then show ?thesis using inv st Pair by (auto split: sum.splits)
  next
    case (Env e)
    then show ?thesis using inv st Pair by auto
  qed
qed

lemma lane_exec_inv:
  "lane_inv (fst s) \<Longrightarrow> lane_exec LP evs s = Inr s' \<Longrightarrow> lane_inv (fst s')"
proof (induction evs arbitrary: s)
  case Nil
  then show ?case by simp
next
  case (Cons ev evs)
  from Cons.prems(2) obtain s1 where s1: "lane_step LP ev s = Inr s1"
    and rest: "lane_exec LP evs s1 = Inr s'"
    by (auto split: sum.splits)
  have "lane_inv (fst s1)" using Cons.prems(1) s1 by (rule lane_step_inv)
  then show ?case using rest by (rule Cons.IH)
qed

lemma check_in_finished:
  "lane_inv t \<Longrightarrow> finished t \<Longrightarrow>
   \<exists>t'. check_in t w = Inr (t', w) \<and> finished t' \<and> process t' = process t"
  by (auto simp: check_in_def lane_inv_def Let_def)


text \<open>
  C9. The finished state of a lane is absorbing. Take a lane as constructed and call its
  methods in any order, with the world changing in between. If the lane is then marked
  finished, a \<open>check_in\<close> returns normally, leaves it finished, leaves the world as it
  is (no process is spawned) and keeps the lane's process handle. The state after that
  call is again one reached by calling the lane's methods, so the same holds of every
  later \<open>check_in\<close>.
\<close>

theorem finished_absorbing:
  assumes "BlenderThread_init cmd js loc nm tmo to_out M w0 = Inr (tn, w1)"
    and "lane_exec LP evs (tn, w1) = Inr (t, w)"
    and "finished t"
  shows "\<exists>t'. check_in t w = Inr (t', w) \<and> finished t' \<and> process t' = process t"
proof -
  have "lane_inv tn"
    using BlenderThread_init_not_finished [OF assms(1)] by (simp add: lane_inv_def)
  then have "lane_inv (fst (tn, w1))" by simp
  then have "lane_inv (fst (t, w))" using assms(2) by (rule lane_exec_inv)
  then show ?thesis using assms(3) by (simp add: check_in_finished)
qed


theorem finished_absorbing_witness:
  "BlenderThread_init [''blender''] [''a.json''] (Some ''log_00.txt'') ''0'' 100 False 100 world0
     = Inr (fst lane_new, snd lane_new)
   \<and> lane_exec ''RENDERED'' [CheckIn, Env (Exit 0), CheckIn] (fst lane_new, snd lane_new)
       = Inr (fst lane_done, snd lane_done)
   \<and> finished (fst lane_done)
   \<and> (\<exists>t'. check_in (fst lane_done) (snd lane_done) = Inr (t', snd lane_done)
         \<and> finished t' \<and> process t' = process (fst lane_done))"
proof -
  have h1: "BlenderThread_init [''blender''] [''a.json''] (Some ''log_00.txt'') ''0'' 100 False 100
              world0 = Inr (fst lane_new, snd lane_new)"
    by (simp add: lane_new_eval BlenderThread_init_def chunk_jobs_def ceil_div_def underflows_def
        list_split_def array_split_def section_sizes_def cumsum_def slice_def world0_def
        perf_counter_def)
  have h2: "lane_exec ''RENDERED'' [CheckIn, Env (Exit 0), CheckIn] (fst lane_new, snd lane_new)
              = Inr (fst lane_done, snd lane_done)"
    by (simp add: lane_done_eval lane_new_eval lane_started_eval check_in_def is_running_def
        poll_running_def start_job_def getitem_def world0_def)
  have h3: "finished (fst lane_done)"
    by (simp add: lane_done_eval)
  show ?thesis
    using h1 h2 h3 finished_absorbing [OF h1 h2 h3] by blast
qed


subsection \<open>A lane and its processes\<close>

lemma filter_map_exit:
  "map pjobs (filter (\<lambda>p. powner p = n) (ps[h := (ps ! h)\<lparr>pexited := True\<rparr>]))
     = map pjobs (filter (\<lambda>p. powner p = n) ps)"
proof (induction ps arbitrary: h)
  case Nil
  show ?case by simp
next
  case (Cons p ps)
  show ?case
  proof (cases h)
    case 0
    then show ?thesis by simp
  next
    case (Suc k)
    then show ?thesis using Cons.IH [of k] by simp
  qed
qed

lemma lane_ok_env: "lane_ok t w \<Longrightarrow> lane_ok t (apply_env ev w)"
proof (cases ev)
  case (Exit h)
  assume ok: "lane_ok t w"
  show ?thesis
  proof (cases "h < length (procs w)")
    case True
    have "started_batches t (apply_env ev w) = started_batches t w"
      using Exit True by (simp add: started_batches_def filter_map_exit)
    moreover have "powner (procs (apply_env ev w) ! k) = powner (procs w ! k)
        \<and> (\<not> pexited (procs (apply_env ev w) ! k) \<longrightarrow> \<not> pexited (procs w ! k))"
      if "k < length (procs w)" for k
      using Exit True that by (simp add: nth_list_update)
    moreover have "length (procs (apply_env ev w)) = length (procs w)"
      using Exit True by simp
    ultimately show ?thesis using ok by (simp add: lane_ok_def)
  next
    case False
    then show ?thesis using Exit ok by simp
  qed
next
  case (Emit path s)
  assume "lane_ok t w"
  then show ?thesis using Emit by (simp add: lane_ok_def started_batches_def)
next
  case (Advance d)
  assume "lane_ok t w"
  then show ?thesis using Advance by (simp add: lane_ok_def started_batches_def)
qed

lemma lane_ok_same_procs: "lane_ok t w \<Longrightarrow> procs w' = procs w \<Longrightarrow> lane_ok t w'"
  by (simp add: lane_ok_def started_batches_def)

lemma lane_ok_other_spawn:
  "lane_ok t w \<Longrightarrow> powner p \<noteq> name t \<Longrightarrow> procs w' = procs w @ [p] \<Longrightarrow> lane_ok t w'"
  by (auto simp: lane_ok_def started_batches_def nth_append less_Suc_eq)

lemma lane_ok_idle:
  assumes "lane_ok t w" "\<not> is_running t w" "h < length (procs w)" "powner (procs w ! h) = name t"
  shows "pexited (procs w ! h)"
proof (rule ccontr)
  assume "\<not> pexited (procs w ! h)"
  then have "process t = Some h" using assms(1,3,4) by (simp add: lane_ok_def)
  then have "is_running t w"
    using assms(3) \<open>\<not> pexited (procs w ! h)\<close> by (simp add: is_running_def poll_running_def)
  then show False using assms(2) by simp
qed

lemma check_in_lane_ok:
  assumes "lane_ok t w" "check_in t w = Inr (t', w')"
  shows "lane_ok t' w' \<and> name t' = name t
           \<and> (procs w' = procs w \<or> (\<exists>p. procs w' = procs w @ [p] \<and> powner p = name t))"
proof (cases "is_running t w")
  case True
  then show ?thesis using assms by (simp add: check_in_def)
next
  case idle: False
  show ?thesis
  proof (cases "int (njobs t) \<le> job t + 1")
    case True
    then have t': "t' = t\<lparr>job := job t + 1, finished := True, status := Completed (name t)\<rparr>"
      and w': "w' = w"
      using assms(2) idle by (simp_all add: check_in_def Let_def)
    have "take (nat (job t + 1)) (jobs t) = jobs t" "take (nat (job t + 1 + 1)) (jobs t) = jobs t"
      using True assms(1) by (simp_all add: lane_ok_def)
    then show ?thesis using assms(1) t' w' by (simp add: lane_ok_def started_batches_def)
  next
    case False
    let ?j = "job t + 1"
    have nj: "njobs t = length (jobs t)" and j0: "0 \<le> ?j"
      using assms(1) by (simp_all add: lane_ok_def)
    have jn: "nat ?j < length (jobs t)"
      using False nj j0 by linarith
    let ?p = "\<lparr>pcommand = command t, pjobs = jobs t ! nat ?j,
               pstdout = (if to_stdout t then None else log_loc t),
               powner = name t, pexited = False\<rparr>"
    have gi: "getitem (jobs t) ?j = Inr (jobs t ! nat ?j)"
      using j0 jn by (simp add: getitem_def)
    have t': "t' = t\<lparr>job := ?j, status := RunningJob (name t) (?j + 1) (njobs t),
                      process := Some (length (procs w))\<rparr>"
      and w': "w' = w\<lparr>procs := procs w @ [?p]\<rparr>"
      using assms(2) idle False gi by (auto simp: check_in_def Let_def start_job_def)
    have st: "started_batches t' w' = take (nat (?j + 1)) (jobs t)"
    proof -
      have "started_batches t' w' = started_batches t w @ [jobs t ! nat ?j]"
        using t' w' by (simp add: started_batches_def)
      also have "\<dots> = take (nat ?j) (jobs t) @ [jobs t ! nat ?j]"
        using assms(1) by (simp add: lane_ok_def)
      also have "\<dots> = take (Suc (nat ?j)) (jobs t)"
        using jn by (simp add: take_Suc_conv_app_nth)
      also have "Suc (nat ?j) = nat (?j + 1)" using j0 by simp
      finally show ?thesis .
    qed
    have live: "process t' = Some h"
      if "h < length (procs w')" "powner (procs w' ! h) = name t'" "\<not> pexited (procs w' ! h)" for h
    proof (cases "h < length (procs w)")
      case True
      then have "powner (procs w ! h) = name t" "\<not> pexited (procs w ! h)"
        using that t' w' by (simp_all add: nth_append)
      then show ?thesis using lane_ok_idle [OF assms(1) idle True] by simp
    next
      case False
      then have "h = length (procs w)" using that(1) w' by simp
      then show ?thesis using t' by simp
    qed
    have "lane_ok t' w'"
      unfolding lane_ok_def
    proof (intro conjI allI impI)
      show "njobs t' = length (jobs t')" using t' nj by simp
      show "- 1 \<le> job t'" using t' j0 by simp
      show "started_batches t' w' = take (nat (job t' + 1)) (jobs t')" using st t' by simp
    next
      fix h
      assume "h < length (procs w')"
        and "powner (procs w' ! h) = name t' \<and> \<not> pexited (procs w' ! h)"
      then show "process t' = Some h" using live by blast
    qed
    then show ?thesis using t' w' by simp
  qed
qed

lemma check_status_cases:
  assumes "check_status LP t w = Inr (t', r)"
  shows "t' = t \<or> (\<exists>n x. t' = t\<lparr>prev_n := n, timer := x\<rparr>)"
proof (cases "num_rendered LP t w")
  case (Inl e)
  then show ?thesis using assms by (simp add: check_status_def)
next
  case (Inr n)
  show ?thesis
  proof (cases "prev_n t < n")
    case True
    then have "t' = t\<lparr>prev_n := n, timer := perf_counter w\<rparr>"
      using assms Inr by (simp add: check_status_def)
    then show ?thesis by blast
  next
    case False
    then have "t' = t"
      using assms Inr by (simp add: check_status_def split: if_splits)
    then show ?thesis by simp
  qed
qed

lemma check_status_lane_ok:
  assumes "lane_ok t w" "check_status LP t w = Inr (t', r)"
  shows "lane_ok t' w \<and> name t' = name t"
proof -
  from check_status_cases [OF assms(2)]
  show ?thesis
  proof
    assume "t' = t"
    then show ?thesis using assms(1) by simp
  next
    assume "\<exists>n x. t' = t\<lparr>prev_n := n, timer := x\<rparr>"
    then obtain n x where "t' = t\<lparr>prev_n := n, timer := x\<rparr>" by blast
    then show ?thesis using assms(1) by (simp add: lane_ok_def started_batches_def)
  qed
qed


lemma visit_lane_cases:
  assumes "visit_lane LP t w = Inr (t', w')"
  shows "(t' = t \<and> w' = w)
         \<or> (\<exists>t1 w1. check_in t w = Inr (t1, w1)
               \<and> ((t' = t1 \<and> w' = w1)
                    \<or> (\<exists>r. check_status LP t1 w1 = Inr (t', r) \<and> procs w' = procs w1)))"
proof (cases "finished t")
  case True
  then show ?thesis using assms by (simp add: visit_lane_def)
next
  case nf: False
  show ?thesis
  proof (cases "check_in t w")
    case (Inl e)
    then show ?thesis using assms nf by (simp add: visit_lane_def)
  next
    case (Inr tw)
    obtain t1 w1 where tw: "tw = (t1, w1)" by (cases tw)
    have ci: "check_in t w = Inr (t1, w1)" using Inr tw by simp
    show ?thesis
    proof (cases "success LP t1 w1")
      case (Inl e)
      then show ?thesis using assms nf ci by (simp add: visit_lane_def)
    next
      case (Inr ok)
      show ?thesis
      proof (cases ok)
        case True
        then have "t' = t1 \<and> w' = w1"
          using assms nf ci Inr by (simp add: visit_lane_def)
        then show ?thesis using ci by simp
      next
        case False
        note notok = this
        show ?thesis
        proof (cases "check_status LP t1 w1")
          case (Inl e)
          then show ?thesis using assms nf ci Inr notok by (simp add: visit_lane_def)
        next
          case (Inr tr)
          obtain t2 r where tr: "tr = (t2, r)" by (cases tr)
          have "t' = t2 \<and> procs w' = procs w1"
            using assms nf ci \<open>success LP t1 w1 = Inr ok\<close> notok Inr tr
            by (cases r) (auto simp: visit_lane_def)
          then show ?thesis using ci Inr tr by auto
        qed
      qed
    qed
  qed
qed

lemma visit_lane_lane_ok:
  assumes "lane_ok t w" "visit_lane LP t w = Inr (t', w')"
  shows "lane_ok t' w' \<and> name t' = name t
           \<and> (procs w' = procs w \<or> (\<exists>p. procs w' = procs w @ [p] \<and> powner p = name t))"
proof -
  from visit_lane_cases [OF assms(2)]
  show ?thesis
  proof
    assume "t' = t \<and> w' = w"
    then show ?thesis using assms(1) by simp
  next
    assume "\<exists>t1 w1. check_in t w = Inr (t1, w1)
               \<and> ((t' = t1 \<and> w' = w1)
                    \<or> (\<exists>r. check_status LP t1 w1 = Inr (t', r) \<and> procs w' = procs w1))"
    then obtain t1 w1 where ci: "check_in t w = Inr (t1, w1)"
      and alt: "(t' = t1 \<and> w' = w1)
                 \<or> (\<exists>r. check_status LP t1 w1 = Inr (t', r) \<and> procs w' = procs w1)"
      by blast
    note c1 = check_in_lane_ok [OF assms(1) ci]
    from alt show ?thesis
    proof
      assume "t' = t1 \<and> w' = w1"
      then show ?thesis using c1 by simp
    next
      assume "\<exists>r. check_status LP t1 w1 = Inr (t', r) \<and> procs w' = procs w1"
      then obtain r where cs: "check_status LP t1 w1 = Inr (t', r)"
        and w': "procs w' = procs w1" by blast
      have ok1: "lane_ok t1 w1" using c1 by simp
      have k: "lane_ok t' w1 \<and> name t' = name t1"
        using ok1 cs by (rule check_status_lane_ok)
      then have "lane_ok t' w'" using w' by (intro lane_ok_same_procs [of t' w1 w']) simp_all
      then show ?thesis using c1 k w' by simp
    qed
  qed
qed


lemma lanes_inv_env: "lanes_inv ths w \<Longrightarrow> lanes_inv ths (apply_env ev w)"
  by (simp add: lanes_inv_def lane_ok_env)

lemma lanes_inv_same_procs:
  "lanes_inv ths w \<Longrightarrow> procs w' = procs w \<Longrightarrow> lanes_inv ths w'"
  unfolding lanes_inv_def by (blast intro: lane_ok_same_procs)

lemma lanes_inv_update:
  assumes inv: "lanes_inv ths w" and i: "i < length ths"
    and ok: "lane_ok t' w'" and nm: "name t' = name (ths ! i)"
    and pr: "procs w' = procs w \<or> (\<exists>p. procs w' = procs w @ [p] \<and> powner p = name (ths ! i))"
  shows "lanes_inv (ths[i := t']) w'"
proof -
  have d: "distinct (map name ths)" using inv by (simp add: lanes_inv_def)
  have "map name (ths[i := t']) = map name ths"
    using nm i by (simp add: map_update list_update_same_conv)
  then have d': "distinct (map name (ths[i := t']))" using d by simp
  have "lane_ok (ths[i := t'] ! j) w'" if j: "j < length ths" for j
  proof (cases "j = i")
    case True
    then show ?thesis using ok i by simp
  next
    case False
    have okj: "lane_ok (ths ! j) w" using inv j by (simp add: lanes_inv_def)
    have ne: "name (ths ! i) \<noteq> name (ths ! j)"
      using d i j False by (simp add: distinct_conv_nth)
    from pr have "lane_ok (ths ! j) w'"
    proof
      assume "procs w' = procs w"
      with okj show ?thesis by (rule lane_ok_same_procs)
    next
      assume "\<exists>p. procs w' = procs w @ [p] \<and> powner p = name (ths ! i)"
      then obtain p where p: "procs w' = procs w @ [p]" "powner p = name (ths ! i)" by blast
      have "powner p \<noteq> name (ths ! j)" using p(2) ne by simp
      with okj show ?thesis using p(1) by (rule lane_ok_other_spawn)
    qed
    then show ?thesis using False by simp
  qed
  then show ?thesis using d' by (simp add: lanes_inv_def)
qed

section \<open>Properties of the coordinator\<close>

subsection \<open>Evaluating the concrete session\<close>

lemma str_nat_digit: "n < 10 \<Longrightarrow> str_nat n = [digit_char n]"
  by (simp add: str_nat.simps)

lemma chunk_two: "chunk_jobs [a, b] 1 = Inr [[a], [b]]"
  by (simp add: chunk_jobs_def ceil_div_def underflows_def list_split_def array_split_def
      section_sizes_def
      cumsum_def slice_def Let_def numeral_2_eq_2 upt_rec [of 0] upt_rec [of 1])

lemma session_new_eval:
  "session_new =
     (\<lparr>num_threads = 1, mgr_command = [''blender''],
       log_locs = [''out/logs/s/log_00.txt''],
       report_loc = ''out/report_01.txt'', t0 = 0, session_start = None,
       threads = [lane_a]\<rparr>,
      world_old\<lparr>files := (files world_old)(''out/logs/s/log_00.txt'' \<mapsto> [])\<rparr>)"
  by (simp add: session_new_def BlenderThreadManager_init_def BlenderThread_init_def chunk_two
      path_join_def suffix_to_prefix fmt02d_def Let_def str_nat_digit digit_char_def sublist_code world_old_def world0_def
      lane_a_def perf_counter_def)

lemma exec_append:
  "exec LP fmt args (es1 @ es2) c = exec LP fmt args es2 (exec LP fmt args es1 c)"
proof (induction es1 arbitrary: c)
  case Nil
  show ?case by simp
next
  case (Cons e es1)
  then show ?case by (cases e) simp_all
qed

lemma run0_seeded:
  "run0 [Step, Step, Step, Step] =
     \<lparr>phase = Cond,
      mgr = (fst session_new)\<lparr>t0 := 0, session_start := Some 0, threads := [lane_a1]\<rparr>,
      world = (snd session_new)\<lparr>procs := [proc_a]\<rparr>,
      last_report_time = 0\<rparr>"
  by (simp add: run0_def start_cfg_def step_def perf_counter_def readlines_def session_new_eval world_old_def world0_def
      lane_a_def lane_a1_def proc_a_def check_in_def is_running_def start_job_def getitem_def
      args0_def num_rendered_def)


lemma num_rendered_session_new:
  "mgr_num_rendered ''RENDERED'' (fst session_new) (snd session_new) = Inr 0"
  by (simp add: session_new_eval mgr_num_rendered_def num_rendered_def lane_a_def)

lemma cfg_seeded_eval:
  "cfg_seeded =
     \<lparr>phase = Cond,
      mgr = (fst session_new)\<lparr>t0 := 0, session_start := Some 0, threads := [lane_a1]\<rparr>,
      world = (snd session_new)\<lparr>procs := [proc_a]\<rparr>,
      last_report_time = 0\<rparr>"
  by (simp add: cfg_seeded_def run0_seeded)

lemma num_rendered_world_one:
  "mgr_num_rendered ''RENDERED'' (mgr cfg_seeded) world_one = Inr 1"
  by (simp add: world_one_def cfg_seeded_eval session_new_eval mgr_num_rendered_def
      readlines_def num_rendered_def lane_a1_def lane_a_def world_old_def)

lemma run0_append: "run0 (es1 @ es2) = exec ''RENDERED'' fmt0 args0 es2 (run0 es1)"
  by (simp add: run0_def exec_append)

lemma session_new_init:
  "BlenderThreadManager_init [''blender''] [[''a.json'', ''b.json'']] ''out'' False 1 ''s''
     [''report_01.txt''] world_old = Inr (fst session_new, snd session_new)"
  by (simp add: session_new_eval BlenderThreadManager_init_def BlenderThread_init_def chunk_two
      path_join_def suffix_to_prefix fmt02d_def Let_def str_nat_digit digit_char_def sublist_code
      world_old_def world0_def lane_a_def perf_counter_def underflows_def)

lemma cfg_second_eval:
  "cfg_second =
     \<lparr>phase = Body 1,
      mgr = (fst session_new)\<lparr>t0 := 0, session_start := Some 0,
              threads := [lane_a1\<lparr>process := Some 1, job := 1, status := RunningJob ''0'' 2 2\<rparr>]\<rparr>,
      world = (snd session_new)\<lparr>procs := [proc_a\<lparr>pexited := True\<rparr>, proc_b]\<rparr>,
      last_report_time = 0\<rparr>"
proof -
  have "cfg_second = exec ''RENDERED'' fmt0 args0 [Step, World (Exit 0), Step] cfg_seeded"
    using run0_append [of "[Step, Step, Step, Step]" "[Step, World (Exit 0), Step]"]
    by (simp add: cfg_second_def cfg_seeded_def)
  then show ?thesis
    by (simp add: cfg_seeded_eval step_def perf_counter_def readlines_def session_new_eval world_old_def world0_def
      lane_a_def lane_a1_def proc_a_def proc_b_def check_in_def is_running_def poll_running_def
      start_job_def getitem_def args0_def num_rendered_def mgr_num_rendered_def visit_lane_def
      success_def check_status_def)
qed

lemma cfg_early_eval:
  "cfg_early =
     \<lparr>phase = Done,
      mgr = (fst session_new)\<lparr>t0 := 0, session_start := Some 0, threads := [lane_a1]\<rparr>,
      world = (snd session_new)\<lparr>procs := [proc_a\<lparr>pexited := True\<rparr>],
                files := (files (snd session_new))(''out/report_01.txt'' \<mapsto> [])\<rparr>,
      last_report_time = 0\<rparr>"
proof -
  have "cfg_early = exec ''RENDERED'' fmt0 args0 [World (Exit 0), Step] cfg_seeded"
    using run0_append [of "[Step, Step, Step, Step]" "[World (Exit 0), Step]"]
    by (simp add: cfg_early_def cfg_seeded_def)
  then show ?thesis
    by (simp add: cfg_seeded_eval step_def perf_counter_def readlines_def session_new_eval world_old_def world0_def
      lane_a_def lane_a1_def proc_a_def check_in_def is_running_def poll_running_def
      args0_def num_rendered_def mgr_num_rendered_def update_report_def)
qed


lemma cfg_stalled_eval:
  "cfg_stalled =
     \<lparr>phase = Body 1,
      mgr = (fst session_new)\<lparr>t0 := 0, session_start := Some 0, threads := [lane_a1]\<rparr>,
      world = (snd session_new)\<lparr>procs := [proc_a],
                files := (files (snd session_new))(''out/report_01.txt'' \<mapsto> []),
                console := [''CANNOT DEAL WITH FAILED THREADS YET''],
                now := 200, wallclock := 200\<rparr>,
      last_report_time = 200\<rparr>"
proof -
  have "cfg_stalled = exec ''RENDERED'' fmt0 args0 [World (Advance 200), Step, Step] cfg_seeded"
    using run0_append [of "[Step, Step, Step, Step]" "[World (Advance 200), Step, Step]"]
    by (simp add: cfg_stalled_def cfg_seeded_def)
  then show ?thesis
    by (simp add: cfg_seeded_eval step_def perf_counter_def readlines_def session_new_eval world_old_def world0_def
      lane_a_def lane_a1_def proc_a_def check_in_def is_running_def poll_running_def
      args0_def num_rendered_def mgr_num_rendered_def update_report_def visit_lane_def
      success_def check_status_def)
qed

lemma cfg_stalled_again_eval:
  "cfg_stalled_again =
     cfg_stalled\<lparr>world := (world cfg_stalled)
        \<lparr>console := [''CANNOT DEAL WITH FAILED THREADS YET'',
                      ''CANNOT DEAL WITH FAILED THREADS YET''],
         now := 400, wallclock := 400\<rparr>,
       last_report_time := 400\<rparr>"
proof -
  have "cfg_stalled_again
          = exec ''RENDERED'' fmt0 args0 [Step, World (Advance 200), Step, Step] cfg_stalled"
    using run0_append [of "[Step, Step, Step, Step, World (Advance 200), Step, Step]"
                          "[Step, World (Advance 200), Step, Step]"]
    by (simp add: cfg_stalled_again_def cfg_stalled_def)
  then show ?thesis
    by (simp add: cfg_stalled_eval step_def perf_counter_def readlines_def session_new_eval world_old_def world0_def
      lane_a_def lane_a1_def proc_a_def check_in_def is_running_def poll_running_def
      args0_def num_rendered_def mgr_num_rendered_def update_report_def visit_lane_def
      success_def check_status_def)
qed

subsection \<open>Construction\<close>

lemma chunk_jobs_nonpos:
  assumes "M \<le> 0"
  shows "chunk_jobs js M = Inl (if M = 0 then ZeroDivisionError else ValueError)"
proof (cases "M = 0")
  case True
  then show ?thesis by (simp add: chunk_jobs_def ceil_div_def)
next
  case False
  then have m: "M < 0" using assms by simp
  have "0 \<le> (- int (length js)) div M"
    using m by (simp add: neg_imp_zdiv_nonneg_iff)
  then show ?thesis
    using False by (simp add: chunk_jobs_def ceil_div_def list_split_def array_split_def)
qed

lemma chunk_jobs_underflow:
  "M \<noteq> 0 \<Longrightarrow> underflows (length js) M \<Longrightarrow> chunk_jobs js M = Inl ValueError"
  by (simp add: chunk_jobs_def ceil_div_def list_split_def array_split_def)

lemma BlenderThread_init_nonpos:
  "M \<le> 0 \<Longrightarrow> BlenderThread_init cmd js loc nm tmo to_out M w
      = Inl (if M = 0 then ZeroDivisionError else ValueError)"
  by (simp add: BlenderThread_init_def chunk_jobs_nonpos)

lemma BlenderThread_init_underflow:
  "0 < M \<Longrightarrow> underflows (length js) M \<Longrightarrow>
   BlenderThread_init cmd js loc nm tmo to_out M w = Inl ValueError"
  by (simp add: BlenderThread_init_def chunk_jobs_underflow)

lemma BlenderThread_init_ok:
  assumes "0 < M" "\<not> underflows (length js) M"
  shows "\<exists>t w'. BlenderThread_init cmd js loc nm tmo to_out M w = Inr (t, w')"
proof -
  have "js \<noteq> []" using assms by (auto simp: underflows_def)
  from chunk_jobs_chop [OF this assms] obtain bs where "chunk_jobs js M = Inr bs" by blast
  then show ?thesis
    by (cases loc; cases to_out) (simp_all add: BlenderThread_init_def)
qed

lemma construct_threads_nonpos:
  "M \<le> 0 \<Longrightarrow> is \<noteq> [] \<Longrightarrow>
   construct_threads cmd jsons logs to_out M is ths w
     = Inl (if M = 0 then ZeroDivisionError else ValueError)"
  by (cases "is") (simp_all add: BlenderThread_init_nonpos)

lemma construct_threads_pos:
  assumes "0 < M"
  shows "construct_threads cmd jsons logs to_out M is ths w = Inl ValueError
           \<and> (\<exists>i \<in> set is. underflows (length (jsons ! i)) M)
         \<or> \<not> isl (construct_threads cmd jsons logs to_out M is ths w)
           \<and> \<not> (\<exists>i \<in> set is. underflows (length (jsons ! i)) M)"
proof (induction "is" arbitrary: ths w)
  case Nil
  show ?case by simp
next
  case (Cons i "is")
  show ?case
  proof (cases "underflows (length (jsons ! i)) M")
    case True
    then show ?thesis using assms by (simp add: BlenderThread_init_underflow)
  next
    case False
    from BlenderThread_init_ok [OF assms False, of cmd "Some (logs ! i)" "str_nat i" 100 to_out w]
    obtain t w' where "BlenderThread_init cmd (jsons ! i) (Some (logs ! i)) (str_nat i) 100 to_out M w
        = Inr (t, w')" by blast
    then show ?thesis using False Cons.IH [of "ths @ [t]" w'] by simp
  qed
qed

lemma BlenderThreadManager_init_pos:
  assumes "0 < M"
  shows "BlenderThreadManager_init cmd jsons out to_out M sn listing w = Inl ValueError
           \<and> (\<exists>js \<in> set jsons. underflows (length js) M)
         \<or> \<not> isl (BlenderThreadManager_init cmd jsons out to_out M sn listing w)
           \<and> \<not> (\<exists>js \<in> set jsons. underflows (length js) M)"
proof -
  let ?logs = "map (\<lambda>i. path_join (path_join (path_join out ''logs'') sn)
                              (''log_'' @ fmt02d i @ ''.txt'')) [0..<length jsons]"
  let ?ct = "construct_threads cmd jsons ?logs to_out M [0..<length jsons] [] w"
  have q: "(\<exists>i \<in> set [0..<length jsons]. underflows (length (jsons ! i)) M)
             \<longleftrightarrow> (\<exists>js \<in> set jsons. underflows (length js) M)"
  proof
    assume "\<exists>i \<in> set [0..<length jsons]. underflows (length (jsons ! i)) M"
    then obtain i where "i < length jsons" "underflows (length (jsons ! i)) M" by auto
    then show "\<exists>js \<in> set jsons. underflows (length js) M"
      using nth_mem by blast
  next
    assume "\<exists>js \<in> set jsons. underflows (length js) M"
    then obtain js where "js \<in> set jsons" "underflows (length js) M" by blast
    then obtain i where "i < length jsons" "underflows (length (jsons ! i)) M"
      by (auto simp: in_set_conv_nth)
    then show "\<exists>i \<in> set [0..<length jsons]. underflows (length (jsons ! i)) M"
      by auto
  qed
  from construct_threads_pos [OF assms, of cmd jsons ?logs to_out "[0..<length jsons]" "[]" w]
  show ?thesis
  proof
    assume "?ct = Inl ValueError \<and> (\<exists>i \<in> set [0..<length jsons]. underflows (length (jsons ! i)) M)"
    then have "?ct = Inl ValueError" and "\<exists>js \<in> set jsons. underflows (length js) M"
      using q by simp_all
    then show ?thesis by (simp add: BlenderThreadManager_init_def Let_def)
  next
    assume "\<not> isl ?ct \<and> \<not> (\<exists>i \<in> set [0..<length jsons]. underflows (length (jsons ! i)) M)"
    then have a: "\<not> isl ?ct" and b: "\<not> (\<exists>js \<in> set jsons. underflows (length js) M)"
      using q by simp_all
    from a obtain r where "?ct = Inr r" by (cases ?ct) simp_all
    then have "\<not> isl (BlenderThreadManager_init cmd jsons out to_out M sn listing w)"
      by (cases r) (simp add: BlenderThreadManager_init_def Let_def)
    then show ?thesis using b by simp
  qed
qed

text \<open>
  C3, as the code has it. The constructor validates nothing itself; what fails is the
  construction of a lane. With no lanes at all it succeeds whatever \<open>MAX_PER_JOB\<close>
  is. With at least one lane and \<open>MAX_PER_JOB \<le> 0\<close> it fails at the first lane, with
  \<open>ZeroDivisionError\<close> for 0 and \<open>ValueError\<close> for a negative value. With
  \<open>MAX_PER_JOB = M > 0\<close> it fails, with \<open>ValueError\<close>, exactly when for some lane
  the float quotient of its length \<open>n\<close> and \<open>M\<close> is \<open>0.0\<close>, that is when
  \<open>n * 2^1075 \<le> M\<close>: the lane has no jobs, or \<open>M\<close> is so large that the quotient
  underflows. Otherwise it raises nothing.
\<close>

theorem BlenderThreadManager_init_errors:
  "(jsons = [] \<longrightarrow> \<not> isl (BlenderThreadManager_init cmd jsons out to_out M sn listing w))
   \<and> (jsons \<noteq> [] \<and> M \<le> 0 \<longrightarrow>
        BlenderThreadManager_init cmd jsons out to_out M sn listing w
          = Inl (if M = 0 then ZeroDivisionError else ValueError))
   \<and> (0 < M \<and> (\<exists>js \<in> set jsons. int (length js) * 2 ^ 1075 \<le> M) \<longrightarrow>
        BlenderThreadManager_init cmd jsons out to_out M sn listing w = Inl ValueError)
   \<and> (0 < M \<and> (\<forall>js \<in> set jsons. M < int (length js) * 2 ^ 1075) \<longrightarrow>
        \<not> isl (BlenderThreadManager_init cmd jsons out to_out M sn listing w))"
proof (intro conjI impI)
  assume "jsons = []"
  then show "\<not> isl (BlenderThreadManager_init cmd jsons out to_out M sn listing w)"
    by (simp add: BlenderThreadManager_init_def)
next
  assume a: "jsons \<noteq> [] \<and> M \<le> 0"
  then have "[0..<length jsons] \<noteq> []" by simp
  then show "BlenderThreadManager_init cmd jsons out to_out M sn listing w
          = Inl (if M = 0 then ZeroDivisionError else ValueError)"
    using a by (simp add: BlenderThreadManager_init_def Let_def construct_threads_nonpos
        del: upt_eq_Nil_conv)
next
  assume a: "0 < M \<and> (\<exists>js \<in> set jsons. int (length js) * 2 ^ 1075 \<le> M)"
  then have "\<exists>js \<in> set jsons. underflows (length js) M"
    by (auto simp: underflows_def)
  then show "BlenderThreadManager_init cmd jsons out to_out M sn listing w = Inl ValueError"
    using a BlenderThreadManager_init_pos [of M cmd jsons out to_out sn listing w] by blast
next
  assume a: "0 < M \<and> (\<forall>js \<in> set jsons. M < int (length js) * 2 ^ 1075)"
  then have "\<not> (\<exists>js \<in> set jsons. underflows (length js) M)"
    by (auto simp: underflows_def)
  then show "\<not> isl (BlenderThreadManager_init cmd jsons out to_out M sn listing w)"
    using a BlenderThreadManager_init_pos [of M cmd jsons out to_out sn listing w] by blast
qed

theorem BlenderThreadManager_init_errors_witness:
  "\<not> isl (BlenderThreadManager_init [''blender''] ([] :: string list list) ''out'' False 0 ''s'' []
            world0)
   \<and> BlenderThreadManager_init [''blender''] [[''a.json'']] ''out'' False (- 1) ''s'' [] world0
       = Inl ValueError
   \<and> BlenderThreadManager_init [''blender''] [[''a.json'']] ''out'' False 0 ''s'' [] world0
       = Inl ZeroDivisionError
   \<and> BlenderThreadManager_init [''blender''] [[''a.json''], []] ''out'' False 100 ''s'' [] world0
       = Inl ValueError
   \<and> BlenderThreadManager_init [''blender''] [[''a.json'']] ''out'' False (10 ^ 400) ''s'' []
        world0 = Inl ValueError
   \<and> \<not> isl (BlenderThreadManager_init [''blender''] [[''a.json'']] ''out'' False 100 ''s'' []
              world0)"
  using
    BlenderThreadManager_init_errors
      [of "[] :: string list list" "[''blender'']" "''out''" False 0 "''s''" "[]" world0]
    BlenderThreadManager_init_errors
      [of "[[''a.json'']]" "[''blender'']" "''out''" False "- 1" "''s''" "[]" world0]
    BlenderThreadManager_init_errors
      [of "[[''a.json'']]" "[''blender'']" "''out''" False 0 "''s''" "[]" world0]
    BlenderThreadManager_init_errors
      [of "[[''a.json''], []]" "[''blender'']" "''out''" False 100 "''s''" "[]" world0]
    BlenderThreadManager_init_errors
      [of "[[''a.json'']]" "[''blender'']" "''out''" False "10 ^ 400" "''s''" "[]" world0]
    BlenderThreadManager_init_errors
      [of "[[''a.json'']]" "[''blender'']" "''out''" False 100 "''s''" "[]" world0]
  by simp

text \<open>
  The claim as written fails both ways: a setup with zero lanes and a zero batch size is
  constructed without error, and a setup with positive values but an empty lane raises
  the very error a negative batch size raises.
\<close>

theorem BlenderThreadManager_init_errors_counterexample:
  "\<not> isl (BlenderThreadManager_init [''blender''] ([] :: string list list) ''out'' False 0 ''s'' []
            world0)
   \<and> BlenderThreadManager_init [''blender''] [[''a.json''], []] ''out'' False 100 ''s'' [] world0
       = Inl ValueError"
  by (simp add: BlenderThreadManager_init_def Let_def BlenderThread_init_def chunk_jobs_def
      ceil_div_def underflows_def list_split_def array_split_def section_sizes_def cumsum_def
      slice_def upt_rec [of 0] upt_rec [of 1])

subsection \<open>The report\<close>

text \<open>
  C7, as the code has it. With a total completed count of 0, \<open>update_report\<close> opens
  the report file for writing and writes no text: the file is created or truncated, and
  what was at that path before is lost. With a positive count (and the session started)
  it replaces the file's content by the report, which begins with the number of images
  rendered.
\<close>

theorem update_report_writes:
  "(mgr_num_rendered LP m w = Inr 0 \<longrightarrow>
      update_report LP fmt m w = Inr (w\<lparr>files := (files w)(report_loc m \<mapsto> [])\<rparr>))
   \<and> (mgr_num_rendered LP m w = Inr n \<and> 0 < n \<and> session_start m = Some s \<longrightarrow>
        (\<exists>content. update_report LP fmt m w
                      = Inr (w\<lparr>files := (files w)(report_loc m \<mapsto> content)\<rparr>)
           \<and> prefix ''Number of images rendered: '' content))"
  by (auto simp: update_report_def Let_def)


theorem update_report_writes_witness:
  "update_report ''RENDERED'' fmt0 (fst session_new) (snd session_new)
     = Inr ((snd session_new)
              \<lparr>files := (files (snd session_new))(report_loc (fst session_new) \<mapsto> [])\<rparr>)
   \<and> (\<exists>content. update_report ''RENDERED'' fmt0 (mgr cfg_seeded) world_one
                      = Inr (world_one
                               \<lparr>files := (files world_one)(report_loc (mgr cfg_seeded) \<mapsto> content)\<rparr>)
           \<and> prefix ''Number of images rendered: '' content)"
proof -
  have h1: "mgr_num_rendered ''RENDERED'' (mgr cfg_seeded) world_one = Inr 1 \<and> (0::nat) < 1
              \<and> session_start (mgr cfg_seeded) = Some 0"
    using num_rendered_world_one by (simp add: cfg_seeded_eval)
  show ?thesis
    using num_rendered_session_new h1
      update_report_writes [of "''RENDERED''" "fst session_new" "snd session_new" fmt0 1 0]
      update_report_writes [of "''RENDERED''" "mgr cfg_seeded" world_one fmt0 1 0]
    by blast
qed


text \<open>
  The claim as written has the file left unchanged when the count is 0. In the concrete
  session nothing is rendered yet and the report path holds an old report; after
  \<open>update_report\<close> the file is empty.
\<close>

theorem update_report_writes_counterexample:
  "mgr_num_rendered ''RENDERED'' (fst session_new) (snd session_new) = Inr 0
   \<and> files (snd session_new) (report_loc (fst session_new)) = Some ''old report''
   \<and> \<not> isl (update_report ''RENDERED'' fmt0 (fst session_new) (snd session_new))
   \<and> files (projr (update_report ''RENDERED'' fmt0 (fst session_new) (snd session_new)))
        (report_loc (fst session_new)) = Some []"
  by (simp add: update_report_def num_rendered_session_new)
     (simp add: session_new_eval world_old_def)



subsection \<open>One live process per lane\<close>

lemma update_report_procs:
  "update_report LP fmt m w = Inr w' \<Longrightarrow> procs w' = procs w"
  by (auto simp: update_report_def Let_def split: sum.splits if_splits option.splits)

lemma step_Cond:
  assumes "phase c = Cond"
  shows "mgr (step LP fmt args c) = mgr c
           \<and> procs (world (step LP fmt args c)) = procs (world c)"
proof (cases "update_report LP fmt (mgr c) (world c)")
  case (Inl e)
  then show ?thesis using assms by (simp add: step_def split: sum.splits)
next
  case (Inr w')
  then have "procs w' = procs (world c)" by (rule update_report_procs)
  then show ?thesis using assms Inr by (simp add: step_def split: sum.splits)
qed


lemma step_lanes_inv:
  assumes "lanes_inv (threads (mgr c)) (world c)"
  shows "lanes_inv (threads (mgr (step LP fmt args c))) (world (step LP fmt args c))"
proof (cases "phase c")
  case (Seed i)
  show ?thesis
  proof (cases "i < length (threads (mgr c))")
    case True
    show ?thesis
    proof (cases "check_in (threads (mgr c) ! i) (world c)")
      case (Inl e)
      then show ?thesis using Seed True assms by (simp add: step_def)
    next
      case (Inr tw)
      obtain t w where tw: "tw = (t, w)" by (cases tw)
      have ok: "lane_ok (threads (mgr c) ! i) (world c)"
        using assms True by (simp add: lanes_inv_def)
      have ci: "check_in (threads (mgr c) ! i) (world c) = Inr (t, w)" using Inr tw by simp
      from check_in_lane_ok [OF ok ci]
      have "lanes_inv ((threads (mgr c))[i := t]) w"
        by (intro lanes_inv_update [OF assms True]) simp_all
      then show ?thesis using Seed True ci by (simp add: step_def)
    qed
  next
    case False
    then show ?thesis using Seed assms by (simp add: step_def)
  qed
next
  case (Bars i)
  then show ?thesis using assms by (simp add: step_def split: sum.splits)
next
  case Cond
  from step_Cond [OF Cond, of LP fmt args]
  have m: "mgr (step LP fmt args c) = mgr c"
    and p: "procs (world (step LP fmt args c)) = procs (world c)" by simp_all
  from assms p have "lanes_inv (threads (mgr c)) (world (step LP fmt args c))"
    by (rule lanes_inv_same_procs)
  then show ?thesis using m by simp
next
  case (Body i)
  show ?thesis
  proof (cases "i < length (threads (mgr c))")
    case True
    show ?thesis
    proof (cases "visit_lane LP (threads (mgr c) ! i) (world c)")
      case (Inl e)
      then show ?thesis using Body True assms by (simp add: step_def)
    next
      case (Inr tw)
      obtain t w where tw: "tw = (t, w)" by (cases tw)
      have ok: "lane_ok (threads (mgr c) ! i) (world c)"
        using assms True by (simp add: lanes_inv_def)
      have vl: "visit_lane LP (threads (mgr c) ! i) (world c) = Inr (t, w)" using Inr tw by simp
      from visit_lane_lane_ok [OF ok vl]
      have "lanes_inv ((threads (mgr c))[i := t]) w"
        by (intro lanes_inv_update [OF assms True]) simp_all
      then show ?thesis using Body True vl by (simp add: step_def)
    qed
  next
    case False
    then show ?thesis using Body assms by (simp add: step_def)
  qed
next
  case Done
  then show ?thesis using assms by (simp add: step_def)
next
  case (Raised e)
  then show ?thesis using assms by (simp add: step_def)
qed

lemma exec_lanes_inv:
  "lanes_inv (threads (mgr c)) (world c) \<Longrightarrow>
   lanes_inv (threads (mgr (exec LP fmt args evs c))) (world (exec LP fmt args evs c))"
proof (induction evs arbitrary: c)
  case Nil
  then show ?case by simp
next
  case (Cons ev evs)
  show ?case
  proof (cases ev)
    case Step
    have "lanes_inv (threads (mgr (step LP fmt args c))) (world (step LP fmt args c))"
      using Cons.prems by (rule step_lanes_inv)
    then show ?thesis using Step Cons.IH by simp
  next
    case (World e)
    have "lanes_inv (threads (mgr (c\<lparr>world := apply_env e (world c)\<rparr>)))
            (world (c\<lparr>world := apply_env e (world c)\<rparr>))"
      using Cons.prems by (simp add: lanes_inv_env)
    then show ?thesis using World Cons.IH by simp
  qed
qed

lemma digit_char_inj:
  assumes "a < 10" "b < 10" "digit_char a = digit_char b"
  shows "a = b"
proof -
  have "distinct ''0123456789''" by simp
  moreover have "a < length ''0123456789''" "b < length ''0123456789''"
    using assms(1,2) by simp_all
  ultimately show ?thesis
    using assms(3) unfolding digit_char_def by (simp only: nth_eq_iff_index_eq)
qed

lemma str_nat_nonempty: "str_nat n \<noteq> []"
  by (subst str_nat.simps) simp

lemma str_nat_inj: "str_nat a = str_nat b \<Longrightarrow> a = b"
proof (induction a arbitrary: b rule: str_nat.induct)
  case (1 a)
  show ?case
  proof (cases "a < 10")
    case a: True
    then have sa: "str_nat a = [digit_char a]" by (subst str_nat.simps) simp
    show ?thesis
    proof (cases "b < 10")
      case True
      then have "str_nat b = [digit_char b]" by (subst str_nat.simps) simp
      then have "digit_char a = digit_char b" using sa "1.prems" by simp
      then show ?thesis using a True by (intro digit_char_inj)
    next
      case False
      then have "str_nat b = str_nat (b div 10) @ [digit_char (b mod 10)]"
        by (subst str_nat.simps) simp
      then have "str_nat (b div 10) = []" using sa "1.prems" by simp
      then show ?thesis using str_nat_nonempty by blast
    qed
  next
    case a: False
    then have sa: "str_nat a = str_nat (a div 10) @ [digit_char (a mod 10)]"
      by (subst str_nat.simps) simp
    show ?thesis
    proof (cases "b < 10")
      case True
      then have "str_nat b = [digit_char b]" by (subst str_nat.simps) simp
      then have "str_nat (a div 10) = []" using sa "1.prems" by simp
      then show ?thesis using str_nat_nonempty by blast
    next
      case False
      then have "str_nat b = str_nat (b div 10) @ [digit_char (b mod 10)]"
        by (subst str_nat.simps) simp
      then have e: "str_nat (a div 10) = str_nat (b div 10)"
        and d: "digit_char (a mod 10) = digit_char (b mod 10)"
        using sa "1.prems" by simp_all
      have q: "a div 10 = b div 10" using a e by (rule "1.IH")
      have r: "a mod 10 = b mod 10" using d by (intro digit_char_inj) simp_all
      have "a = 10 * (a div 10) + a mod 10" by simp
      also have "\<dots> = 10 * (b div 10) + b mod 10" using q r by simp
      also have "\<dots> = b" by simp
      finally show ?thesis .
    qed
  qed
qed

lemma distinct_str_nat: "distinct (map str_nat [0..<n])"
  by (simp add: distinct_map inj_on_def str_nat_inj)

lemma construct_threads_result:
  "construct_threads cmd jsons logs to_out M is ths w = Inr (ths', w') \<Longrightarrow>
   map name ths' = map name ths @ map str_nat is
   \<and> ((\<forall>t \<in> set ths. fresh t) \<longrightarrow> (\<forall>t \<in> set ths'. fresh t))"
proof (induction "is" arbitrary: ths w)
  case Nil
  then show ?case by simp
next
  case (Cons i "is")
  from Cons.prems obtain t w1 where
    ti: "BlenderThread_init cmd (jsons ! i) (Some (logs ! i)) (str_nat i) 100 to_out M w = Inr (t, w1)"
    and rest: "construct_threads cmd jsons logs to_out M is (ths @ [t]) w1 = Inr (ths', w')"
    by (auto split: sum.splits)
  from BlenderThread_init_Inr [OF ti] have f: "fresh t" and n: "name t = str_nat i"
    by (simp_all add: fresh_def)
  from Cons.IH [OF rest] show ?case using f n by simp
qed

lemma fresh_lane_ok: "fresh t \<Longrightarrow> procs w = [] \<Longrightarrow> lane_ok t w"
  by (simp add: fresh_def lane_ok_def started_batches_def)

lemma init_lanes_inv:
  assumes "BlenderThreadManager_init cmd jsons out to_out M sn listing w0 = Inr (m, w1)"
    and "procs w = []"
  shows "lanes_inv (threads m) w"
proof -
  from assms(1) obtain logs where
    ct: "construct_threads cmd jsons logs to_out M [0..<length jsons] [] w0 = Inr (threads m, w1)"
    by (auto simp: BlenderThreadManager_init_def Let_def split: sum.splits)
  from construct_threads_result [OF ct]
  have nm: "map name (threads m) = map str_nat [0..<length jsons]"
    and fr: "\<forall>t \<in> set (threads m). fresh t" by simp_all
  have "distinct (map name (threads m))" using nm distinct_str_nat by simp
  moreover have "lane_ok (threads m ! i) w" if "i < length (threads m)" for i
    using fr that assms(2) by (intro fresh_lane_ok) simp_all
  ultimately show ?thesis by (simp add: lanes_inv_def)
qed


text \<open>
  C8. Within every lane the batches run strictly one after the other. Take a session as
  constructed, started in a world whose process table is empty, and run \<open>start\<close>
  along any schedule of its own steps and of changes of the world. At every point, for
  every lane: the processes the lane has started are those of its batches
  \<open>0, \<dots>, job\<close> in this order (one process per batch, none skipped, none
  repeated), and every process of the lane that has not exited is the process the lane
  currently holds. So the process of batch \<open>i + 1\<close> exists only once that of batch
  \<open>i\<close> has exited, and a lane never has two live worker processes.
\<close>

theorem one_live_process_per_lane:
  assumes "BlenderThreadManager_init cmd jsons out to_out M sn listing w0 = Inr (m, w1)"
    and "procs w = []"
    and "c = exec LP fmt args evs (start_cfg m w)"
  shows "\<forall>i < length (threads (mgr c)).
           started_batches (threads (mgr c) ! i) (world c)
             = take (nat (job (threads (mgr c) ! i) + 1)) (jobs (threads (mgr c) ! i))
           \<and> (\<forall>h < length (procs (world c)).
                 powner (procs (world c) ! h) = name (threads (mgr c) ! i)
                   \<and> \<not> pexited (procs (world c) ! h)
                 \<longrightarrow> process (threads (mgr c) ! i) = Some h)"
proof -
  have "lanes_inv (threads m) w" using assms(1,2) by (rule init_lanes_inv)
  then have "lanes_inv (threads (mgr (start_cfg m w))) (world (start_cfg m w))"
    by (simp add: start_cfg_def)
  then have "lanes_inv (threads (mgr c)) (world c)"
    unfolding assms(3) by (rule exec_lanes_inv)
  then show ?thesis by (simp add: lanes_inv_def lane_ok_def)
qed


theorem one_live_process_per_lane_witness:
  "BlenderThreadManager_init [''blender''] [[''a.json'', ''b.json'']] ''out'' False 1 ''s''
     [''report_01.txt''] world_old = Inr (fst session_new, snd session_new)
   \<and> procs (snd session_new) = []
   \<and> cfg_second = exec ''RENDERED'' fmt0 args0 [Step, Step, Step, Step, Step, World (Exit 0), Step]
                     (start_cfg (fst session_new) (snd session_new))
   \<and> length (threads (mgr cfg_second)) = 1
   \<and> length (procs (world cfg_second)) = 2
   \<and> started_batches (threads (mgr cfg_second) ! 0) (world cfg_second)
       = take (nat (job (threads (mgr cfg_second) ! 0) + 1)) (jobs (threads (mgr cfg_second) ! 0))
   \<and> powner (procs (world cfg_second) ! 1) = name (threads (mgr cfg_second) ! 0)
   \<and> \<not> pexited (procs (world cfg_second) ! 1)
   \<and> pexited (procs (world cfg_second) ! 0)
   \<and> process (threads (mgr cfg_second) ! 0) = Some 1"
proof -
  have h1: "BlenderThreadManager_init [''blender''] [[''a.json'', ''b.json'']] ''out'' False 1 ''s''
     [''report_01.txt''] world_old = Inr (fst session_new, snd session_new)"
    by (rule session_new_init)
  have h2: "procs (snd session_new) = []"
    by (simp add: session_new_eval world_old_def world0_def)
  have h3: "cfg_second = exec ''RENDERED'' fmt0 args0
              [Step, Step, Step, Step, Step, World (Exit 0), Step]
              (start_cfg (fst session_new) (snd session_new))"
    by (simp add: cfg_second_def run0_def)
  have l: "length (threads (mgr cfg_second)) = 1" "length (procs (world cfg_second)) = 2"
    by (simp_all add: cfg_second_eval)
  have o: "powner (procs (world cfg_second) ! 1) = name (threads (mgr cfg_second) ! 0)"
    "\<not> pexited (procs (world cfg_second) ! 1)" "pexited (procs (world cfg_second) ! 0)"
    by (simp_all add: cfg_second_eval proc_a_def proc_b_def lane_a1_def lane_a_def)
  note T = one_live_process_per_lane [OF h1 h2 h3]
  have i0: "0 < length (threads (mgr cfg_second))" using l(1) by simp
  have h1': "1 < length (procs (world cfg_second))" using l(2) by simp
  from T i0 have A: "started_batches (threads (mgr cfg_second) ! 0) (world cfg_second)
       = take (nat (job (threads (mgr cfg_second) ! 0) + 1)) (jobs (threads (mgr cfg_second) ! 0))"
    and B: "\<forall>h < length (procs (world cfg_second)).
                 powner (procs (world cfg_second) ! h) = name (threads (mgr cfg_second) ! 0)
                   \<and> \<not> pexited (procs (world cfg_second) ! h)
                 \<longrightarrow> process (threads (mgr cfg_second) ! 0) = Some h"
    by blast+
  from B h1' o have C: "process (threads (mgr cfg_second) ! 0) = Some 1" by blast
  show ?thesis using h1 h2 h3 l o A C by blast
qed

subsection \<open>The end of the loop\<close>

text \<open>
  What the test of the loop decides on: the loop is left exactly when no lane has a
  running process at the moment of the test.
\<close>

lemma loop_test:
  assumes "phase c = Cond"
  shows "phase (step LP fmt args c) = Done \<Longrightarrow> \<not> (\<exists>t \<in> set (threads (mgr c)). is_running t (world c))"
    and "phase (step LP fmt args c) = Body 0 \<Longrightarrow> \<exists>t \<in> set (threads (mgr c)). is_running t (world c)"
    and "phase (step LP fmt args c) \<in> {Done, Body 0} \<union> range Raised"
  using assms by (auto simp: step_def split: sum.splits if_splits)

text \<open>
  C4 asks that the loop of \<open>start\<close> ends only when every lane is finished. The test
  of the loop is that some lane has a running process. In \<open>cfg_early\<close> the worker of
  the first of two batches exits after the seeding \<open>check_in\<close> and before the first
  test of the loop: \<open>start\<close> returns, the lane is not marked finished, its batch
  index is still 0 of 2, and the only process ever started is the one of the first
  batch; the second batch is never run.
\<close>

theorem start_exits_with_unfinished_lane:
  "phase cfg_early = Done
   \<and> length (threads (mgr cfg_early)) = 1
   \<and> \<not> finished (threads (mgr cfg_early) ! 0)
   \<and> job (threads (mgr cfg_early) ! 0) = 0
   \<and> njobs (threads (mgr cfg_early) ! 0) = 2
   \<and> map pjobs (procs (world cfg_early)) = [[''a.json'']]"
  by (simp add: cfg_early_eval lane_a1_def lane_a_def proc_a_def)

subsection \<open>A stalled lane\<close>

text \<open>
  No step of \<open>start\<close> changes a process that exists: it can only add a process that
  has not exited. In particular \<open>start\<close> never terminates a process, however many
  steps it takes; a process exits only by itself.
\<close>

lemma check_in_procs:
  assumes "check_in t w = Inr (t', w')"
  shows "procs w' = procs w \<or> (\<exists>p. procs w' = procs w @ [p] \<and> \<not> pexited p)"
proof (cases "is_running t w \<or> int (njobs t) \<le> job t + 1")
  case True
  then have "w' = w" using assms by (auto simp: check_in_def Let_def split: if_splits)
  then show ?thesis by simp
next
  case False
  then have "start_job (t\<lparr>job := job t + 1,
                 status := RunningJob (name t) (job t + 1 + 1) (njobs t)\<rparr>) (job t + 1) w
               = Inr (t', w')"
    using assms by (simp add: check_in_def Let_def)
  then show ?thesis by (auto simp: start_job_def split: sum.splits)
qed

lemma visit_lane_procs:
  assumes "visit_lane LP t w = Inr (t', w')"
  shows "procs w' = procs w \<or> (\<exists>p. procs w' = procs w @ [p] \<and> \<not> pexited p)"
proof -
  from visit_lane_cases [OF assms]
  show ?thesis
  proof
    assume "t' = t \<and> w' = w"
    then show ?thesis by simp
  next
    assume "\<exists>t1 w1. check_in t w = Inr (t1, w1)
               \<and> ((t' = t1 \<and> w' = w1)
                    \<or> (\<exists>r. check_status LP t1 w1 = Inr (t', r) \<and> procs w' = procs w1))"
    then obtain t1 w1 where ci: "check_in t w = Inr (t1, w1)" and "procs w' = procs w1"
      by auto
    then show ?thesis using check_in_procs [OF ci] by simp
  qed
qed

lemma step_procs:
  "procs (world (step LP fmt args c)) = procs (world c)
   \<or> (\<exists>p. procs (world (step LP fmt args c)) = procs (world c) @ [p] \<and> \<not> pexited p)"
proof (cases "phase c")
  case (Seed i)
  show ?thesis
  proof (cases "i < length (threads (mgr c))")
    case True
    show ?thesis
    proof (cases "check_in (threads (mgr c) ! i) (world c)")
      case (Inl e)
      then show ?thesis using Seed True by (simp add: step_def)
    next
      case (Inr tw)
      obtain t w where tw: "tw = (t, w)" by (cases tw)
      have ci: "check_in (threads (mgr c) ! i) (world c) = Inr (t, w)" using Inr tw by simp
      from check_in_procs [OF ci] show ?thesis using Seed True ci by (simp add: step_def)
    qed
  next
    case False
    then show ?thesis using Seed by (simp add: step_def)
  qed
next
  case (Bars i)
  then show ?thesis by (simp add: step_def split: sum.splits)
next
  case Cond
  then show ?thesis using step_Cond [of c LP fmt args] by simp
next
  case (Body i)
  show ?thesis
  proof (cases "i < length (threads (mgr c))")
    case True
    show ?thesis
    proof (cases "visit_lane LP (threads (mgr c) ! i) (world c)")
      case (Inl e)
      then show ?thesis using Body True by (simp add: step_def)
    next
      case (Inr tw)
      obtain t w where tw: "tw = (t, w)" by (cases tw)
      have vl: "visit_lane LP (threads (mgr c) ! i) (world c) = Inr (t, w)" using Inr tw by simp
      from visit_lane_procs [OF vl] show ?thesis using Body True vl by (simp add: step_def)
    qed
  next
    case False
    then show ?thesis using Body by (simp add: step_def)
  qed
next
  case Done
  then show ?thesis by (simp add: step_def)
next
  case (Raised e)
  then show ?thesis by (simp add: step_def)
qed

lemma step_never_terminates:
  assumes "h < length (procs (world c))"
  shows "procs (world (step LP fmt args c)) ! h = procs (world c) ! h"
  using step_procs [of LP fmt args c] assms by (auto simp: nth_append)

lemma step_procs_length: "length (procs (world c)) \<le> length (procs (world (step LP fmt args c)))"
  using step_procs [of LP fmt args c] by auto

lemma steps_never_terminate:
  "h < length (procs (world c)) \<Longrightarrow>
   procs (world (exec LP fmt args (replicate n Step) c)) ! h = procs (world c) ! h"
proof (induction n arbitrary: c)
  case 0
  show ?case by simp
next
  case (Suc n)
  have "h < length (procs (world (step LP fmt args c)))"
    using Suc.prems step_procs_length [of c LP fmt args] by simp
  then have "procs (world (exec LP fmt args (replicate n Step) (step LP fmt args c))) ! h
               = procs (world (step LP fmt args c)) ! h"
    by (rule Suc.IH)
  also have "\<dots> = procs (world c) ! h"
    using Suc.prems by (rule step_never_terminates)
  finally show ?case by simp
qed

text \<open>
  C2 asks that a lane without progress for longer than the timeout has its process
  terminated and its batch restarted. In \<open>cfg_stalled\<close> the worker has been alive and
  silent for 200 seconds, twice the timeout, when its lane is visited:
  \<open>check_status\<close> reports the stall, the message is printed, and nothing else happens.
  The process table still holds the one process, which has not exited, the lane still
  holds it, and the batch index has not moved. One round of the loop and 200 seconds
  later (\<open>cfg_stalled_again\<close>) the same is true, with the message printed once more.
\<close>

theorem stalled_lane_not_restarted:
  "phase cfg_stalled = Body 1
   \<and> check_status ''RENDERED'' (threads (mgr cfg_stalled) ! 0) (world cfg_stalled)
       = Inr (threads (mgr cfg_stalled) ! 0, False)
   \<and> console (world cfg_stalled) = [''CANNOT DEAL WITH FAILED THREADS YET'']
   \<and> procs (world cfg_stalled) = [proc_a]
   \<and> \<not> pexited proc_a
   \<and> process (threads (mgr cfg_stalled) ! 0) = Some 0
   \<and> job (threads (mgr cfg_stalled) ! 0) = 0
   \<and> phase cfg_stalled_again = Body 1
   \<and> procs (world cfg_stalled_again) = [proc_a]
   \<and> threads (mgr cfg_stalled_again) = threads (mgr cfg_stalled)
   \<and> console (world cfg_stalled_again)
       = [''CANNOT DEAL WITH FAILED THREADS YET'', ''CANNOT DEAL WITH FAILED THREADS YET'']"
  by (simp add: cfg_stalled_again_eval)
     (simp add: cfg_stalled_eval lane_a1_def lane_a_def proc_a_def check_status_def
       num_rendered_def readlines_def perf_counter_def session_new_eval world_old_def
       world0_def)

end
